theory Spec2Isabelle
  imports Main "HOL-Library.Sublist"
begin

section \<open>JavaScript values and built-ins used by the demultiplexer\<close>

text \<open>
  The stream demultiplexer is the closure inside \<open>ChatService.getStreamingAIResponse\<close>.
  It uses a handful of built-ins of the JavaScript runtime: \<open>String.prototype.indexOf\<close>,
  \<open>substring\<close>, \<open>trim\<close>, property reads, template literals, \<open>JSON.stringify\<close> and
  \<open>JSON.parse\<close>. All but the last are written out below. \<open>JSON.parse\<close> is a parameter
  \<open>parse\<close> of every operation (\<open>None\<close> is the thrown \<open>SyntaxError\<close>), so the general
  theorems hold for whatever the runtime's decoder does; a concrete decoder for a fragment
  of JSON is defined further down and used for the closed examples only.

  Strings are lists of 8-bit code units. A JSON number is represented by the string that
  \<open>Number.prototype.toString\<close> prints for it (\<open>''0''\<close> for both zeros), which is all the
  program ever observes of a number.
\<close>

datatype json =
    JNull
  | JBool bool
  | JNum string
  | JStr string
  | JArr "json list"
  | JObj "(string \<times> json) list"

text \<open>A JavaScript value that may be \<open>undefined\<close> (\<open>None\<close>).\<close>

type_synonym jsval = "json option"

datatype exn = SyntaxError | TypeError

text \<open>\<open>x.f\<close>: reading a property of \<open>undefined\<close> or \<open>null\<close> throws a \<open>TypeError\<close>; objects
  yield the member or \<open>undefined\<close>; the other values have none of the names read here.\<close>

definition getprop :: "jsval \<Rightarrow> string \<Rightarrow> exn + jsval" where
  "getprop x f =
     (case x of
        None \<Rightarrow> Inl TypeError
      | Some JNull \<Rightarrow> Inl TypeError
      | Some (JObj kvs) \<Rightarrow> Inr (map_of kvs f)
      | Some _ \<Rightarrow> Inr None)"

text \<open>\<open>x?.f\<close>: optional chaining yields \<open>undefined\<close> on \<open>undefined\<close> and \<open>null\<close>.\<close>

definition getprop_opt :: "jsval \<Rightarrow> string \<Rightarrow> jsval" where
  "getprop_opt x f =
     (case x of
        None \<Rightarrow> None
      | Some JNull \<Rightarrow> None
      | Some (JObj kvs) \<Rightarrow> map_of kvs f
      | Some _ \<Rightarrow> None)"

text \<open>\<open>ToBoolean\<close>, as used by \<open>if (msgContent)\<close>.\<close>

fun truthy :: "jsval \<Rightarrow> bool" where
  "truthy None = False"
| "truthy (Some JNull) = False"
| "truthy (Some (JBool b)) = b"
| "truthy (Some (JNum n)) = (n \<noteq> ''0'' \<and> n \<noteq> ''NaN'')"
| "truthy (Some (JStr s)) = (s \<noteq> [])"
| "truthy (Some (JArr xs)) = True"
| "truthy (Some (JObj kvs)) = True"

fun join :: "string \<Rightarrow> string list \<Rightarrow> string" where
  "join sep [] = []"
| "join sep [x] = x"
| "join sep (x # y # ys) = x @ sep @ join sep (y # ys)"

text \<open>\<open>ToString\<close> of a JSON value, which is also what \<open>+=\<close> on a string does with it. An
  array is \<open>join(',')\<close> of its elements, where \<open>null\<close> elements print as the empty string.
  An object prints through \<open>Object.prototype.toString\<close>, unless it has a member of its own
  named \<open>toString\<close>: that member is not callable, the inherited \<open>valueOf\<close> returns the
  object itself, and the conversion throws a \<open>TypeError\<close>.\<close>

fun collect :: "(exn + 'a) list \<Rightarrow> exn + 'a list" where
  "collect [] = Inr []"
| "collect (r # rs) =
     (case r of
        Inl e \<Rightarrow> Inl e
      | Inr x \<Rightarrow> (case collect rs of Inl e \<Rightarrow> Inl e | Inr xs \<Rightarrow> Inr (x # xs)))"

fun ToString :: "json \<Rightarrow> exn + string" where
  "ToString JNull = Inr ''null''"
| "ToString (JBool b) = Inr (if b then ''true'' else ''false'')"
| "ToString (JNum n) = Inr n"
| "ToString (JStr s) = Inr s"
| "ToString (JArr xs) =
     (case collect (map (\<lambda>x. if x = JNull then Inr [] else ToString x) xs) of
        Inl e \<Rightarrow> Inl e
      | Inr parts \<Rightarrow> Inr (join '','' parts))"
| "ToString (JObj kvs) =
     (if map_of kvs ''toString'' = None then Inr ''[object Object]'' else Inl TypeError)"

text \<open>\<open>`${v}`\<close>: a template literal substitution.\<close>

definition template :: "jsval \<Rightarrow> exn + string" where
  "template v = (case v of None \<Rightarrow> Inr ''undefined'' | Some j \<Rightarrow> ToString j)"

definition hex_digit :: "nat \<Rightarrow> char" where
  "hex_digit d = (''0123456789abcdef'' ! (d mod 16))"

text \<open>\<open>QuoteJSONString\<close> on 8-bit code units.\<close>

definition quote_char :: "char \<Rightarrow> string" where
  "quote_char c =
     (if c = CHR ''\"'' then [CHR 0x5C, CHR ''\"'']
      else if c = CHR 0x5C then [CHR 0x5C, CHR 0x5C]
      else if c = CHR 0x08 then [CHR 0x5C, CHR ''b'']
      else if c = CHR 0x0C then [CHR 0x5C, CHR ''f'']
      else if c = CHR 0x0A then [CHR 0x5C, CHR ''n'']
      else if c = CHR 0x0D then [CHR 0x5C, CHR ''r'']
      else if c = CHR 0x09 then [CHR 0x5C, CHR ''t'']
      else if of_char c < (32 :: nat)
        then [CHR 0x5C, CHR ''u'', CHR ''0'', CHR ''0'',
              hex_digit (of_char c div 16), hex_digit (of_char c)]
      else [c])"

definition quote :: "string \<Rightarrow> string" where
  "quote s = [CHR ''\"''] @ concat (map quote_char s) @ [CHR ''\"'']"

fun JSON_stringify :: "json \<Rightarrow> string" where
  "JSON_stringify JNull = ''null''"
| "JSON_stringify (JBool b) = (if b then ''true'' else ''false'')"
| "JSON_stringify (JNum n) =
     (if n = ''Infinity'' \<or> n = ''-Infinity'' \<or> n = ''NaN'' then ''null'' else n)"
| "JSON_stringify (JStr s) = quote s"
| "JSON_stringify (JArr xs) = ''['' @ join '','' (map JSON_stringify xs) @ '']''"
| "JSON_stringify (JObj kvs) =
     ''{'' @ join '','' (map (\<lambda>kv. quote (fst kv) @ '':'' @ JSON_stringify (snd kv)) kvs) @ ''}''"

text \<open>\<open>s.indexOf(needle, from)\<close>: the least index \<open>\<ge> from\<close> at which \<open>needle\<close> occurs,
  \<open>None\<close> for \<open>-1\<close>.\<close>

fun find_at :: "string \<Rightarrow> string \<Rightarrow> nat \<Rightarrow> nat option" where
  "find_at needle [] i = (if needle = [] then Some i else None)"
| "find_at needle (c # cs) i =
     (if prefix needle (c # cs) then Some i else find_at needle cs (Suc i))"

definition indexOf :: "string \<Rightarrow> string \<Rightarrow> nat \<Rightarrow> nat option" where
  "indexOf s needle from = find_at needle (drop from s) (min from (length s))"

text \<open>\<open>s.substring(a)\<close> and \<open>s.substring(a, b)\<close> (arguments clamped, swapped when \<open>a > b\<close>).\<close>

definition substring_from :: "string \<Rightarrow> nat \<Rightarrow> string" where
  "substring_from s a = drop a s"

definition substring :: "string \<Rightarrow> nat \<Rightarrow> nat \<Rightarrow> string" where
  "substring s a b =
     (let a' = min a (length s); b' = min b (length s)
      in take (max a' b' - min a' b') (drop (min a' b') s))"

text \<open>\<open>s.trim()\<close>: the white space and line terminators that fit in 8 bits.\<close>

definition is_js_space :: "char \<Rightarrow> bool" where
  "is_js_space c \<longleftrightarrow>
     c \<in> {CHR 0x09, CHR 0x0A, CHR 0x0B, CHR 0x0C, CHR 0x0D, CHR 0x20, CHR 0xA0}"

definition trim :: "string \<Rightarrow> string" where
  "trim s = rev (dropWhile is_js_space (rev (dropWhile is_js_space s)))"

section \<open>The demultiplexer session\<close>

text \<open>What \<open>subscriber.next\<close> is called with: the server-sent tool line
  \<open>data: {"type":"tool","payload":...}\<close>, the raw text line \<open>data: ...\<close>, and the final
  object \<open>{type: 'content', payload: null, completeContent}\<close>.\<close>

datatype event =
    ToolEvent json
  | DeltaEvent string
  | ContentEvent string

text \<open>The values themselves: a string for the first two, an object for the last.\<close>

datatype emission = Text string | Object json

fun render :: "event \<Rightarrow> emission" where
  "render (ToolEvent toolData) =
     Text (''data: '' @ JSON_stringify (JObj [(''type'', JStr ''tool''), (''payload'', toolData)])
           @ [CHR 0x0A, CHR 0x0A])"
| "render (DeltaEvent msgContent) = Text (''data: '' @ msgContent @ [CHR 0x0A, CHR 0x0A])"
| "render (ContentEvent completeContent) =
     Object (JObj [(''type'', JStr ''content''), (''payload'', JNull),
                   (''completeContent'', JStr completeContent)])"

text \<open>The calls of \<open>this.logger\<close>.\<close>

datatype log_entry =
    RawChunk string
  | ToolParseFailedAtEnd
  | TolyParseFailedAtEnd string
  | CompleteContent string

text \<open>The variables captured by the closures of one call, with the subscriber's and the
  logger's history made explicit.\<close>

record session =
  rawBuffer :: string
  processedTools :: "string set"
  streamedContent :: string
  emitted :: "event list"
  logged :: "log_entry list"
  completed :: bool

definition init :: session where
  "init = \<lparr>rawBuffer = [], processedTools = {}, streamedContent = [],
            emitted = [], logged = [], completed = False\<rparr>"

datatype message_type = TOOL | TOLY

fun MESSAGE_TYPES :: "message_type \<Rightarrow> string" where
  "MESSAGE_TYPES TOOL = ''Tool :''"
| "MESSAGE_TYPES TOLY = ''Toly :''"

definition IDENTIFIER_LENGTH :: nat where
  "IDENTIFIER_LENGTH = 6"

text \<open>\<open>findNextMessageStart\<close>: the loop over \<open>Object.values(MESSAGE_TYPES)\<close> keeps the
  least position found; \<open>None\<close> is \<open>Infinity\<close>.\<close>

definition keep_least :: "nat option \<Rightarrow> nat option \<Rightarrow> nat option" where
  "keep_least nextPos pos =
     (case pos of
        None \<Rightarrow> nextPos
      | Some p \<Rightarrow> (case nextPos of None \<Rightarrow> Some p
                  | Some n \<Rightarrow> if p < n then Some p else Some n))"

definition findNextMessageStart :: "string \<Rightarrow> nat \<Rightarrow> nat option" where
  "findNextMessageStart buf currentPos =
     foldl (\<lambda>nextPos identifier.
              keep_least nextPos (indexOf buf identifier (currentPos + IDENTIFIER_LENGTH)))
       None [MESSAGE_TYPES TOOL, MESSAGE_TYPES TOLY]"

definition extractMessageContent :: "string \<Rightarrow> nat \<Rightarrow> string \<times> nat option" where
  "extractMessageContent buf startPos =
     (let nextMsgStart = findNextMessageStart buf startPos;
          content = (case nextMsgStart of
                       Some n \<Rightarrow> substring buf (startPos + IDENTIFIER_LENGTH) n
                     | None \<Rightarrow> substring_from buf (startPos + IDENTIFIER_LENGTH))
      in (content, nextMsgStart))"

text \<open>The dedup key \<open>`${toolData.tool_name}-${JSON.stringify(toolData.additional_kwargs)}`\<close>;
  \<open>JSON.stringify(undefined)\<close> is \<open>undefined\<close>.\<close>

definition toolKey :: "json \<Rightarrow> exn + string" where
  "toolKey toolData =
     (case getprop (Some toolData) ''tool_name'' of
        Inl e \<Rightarrow> Inl e
      | Inr name \<Rightarrow>
          (case template name of
             Inl e \<Rightarrow> Inl e
           | Inr nameText \<Rightarrow>
               (case getprop (Some toolData) ''additional_kwargs'' of
                  Inl e \<Rightarrow> Inl e
                | Inr kwargs \<Rightarrow>
                    (case template (map_option (\<lambda>v. JStr (JSON_stringify v)) kwargs) of
                       Inl e \<Rightarrow> Inl e
                     | Inr kwargsText \<Rightarrow> Inr (nameText @ ''-'' @ kwargsText)))))"

text \<open>The \<open>try\<close> block of \<open>processToolMessage\<close>.\<close>

definition processToolMessage_try ::
  "(string \<Rightarrow> json option) \<Rightarrow> session \<Rightarrow> string \<Rightarrow> exn + session" where
  "processToolMessage_try parse st content =
     (let jsonStr = trim content in
      case parse jsonStr of
        None \<Rightarrow> Inl SyntaxError
      | Some toolData \<Rightarrow>
          (case toolKey toolData of
             Inl e \<Rightarrow> Inl e
           | Inr key \<Rightarrow>
               if key \<notin> processedTools st
               then Inr (st\<lparr>processedTools := insert key (processedTools st),
                            emitted := emitted st @ [ToolEvent toolData]\<rparr>)
               else Inr st))"

definition processToolMessage ::
  "(string \<Rightarrow> json option) \<Rightarrow> session \<Rightarrow> string \<Rightarrow> bool \<Rightarrow> bool \<times> session" where
  "processToolMessage parse st content isEnd =
     (case processToolMessage_try parse st content of
        Inr st' \<Rightarrow> (True, st')
      | Inl error \<Rightarrow>
          if isEnd then (True, st\<lparr>logged := logged st @ [ToolParseFailedAtEnd]\<rparr>)
          else (False, st))"

text \<open>The \<open>try\<close> block of \<open>processTolyMessage\<close>; \<open>&&\<close> short-circuits, so \<open>metadata\<close> is
  read only when the event kind matched. The conversion of \<open>msgContent\<close> in
  \<open>streamedContent += msgContent\<close> comes before the assignment, so when it throws nothing
  has been changed.\<close>

definition processTolyMessage_try ::
  "(string \<Rightarrow> json option) \<Rightarrow> session \<Rightarrow> string \<Rightarrow> exn + session" where
  "processTolyMessage_try parse st content =
     (case parse content of
        None \<Rightarrow> Inl SyntaxError
      | Some parsedData \<Rightarrow>
          (case getprop (Some parsedData) ''event'' of
             Inl e \<Rightarrow> Inl e
           | Inr ev \<Rightarrow>
               if ev \<noteq> Some (JStr ''on_chat_model_stream'') then Inr st
               else
                 (case getprop (Some parsedData) ''metadata'' of
                    Inl e \<Rightarrow> Inl e
                  | Inr metadata \<Rightarrow>
                      if getprop_opt metadata ''langgraph_node'' \<noteq> Some (JStr ''Toly'')
                      then Inr st
                      else
                        (case getprop (Some parsedData) ''data'' of
                           Inl e \<Rightarrow> Inl e
                         | Inr data \<Rightarrow>
                             (case getprop data ''chunk'' of
                                Inl e \<Rightarrow> Inl e
                              | Inr chunk \<Rightarrow>
                                  (let msgContent = getprop_opt chunk ''content'' in
                                   if truthy msgContent
                                   then
                                     (case template msgContent of
                                        Inl e \<Rightarrow> Inl e
                                      | Inr msgText \<Rightarrow>
                                          Inr (st\<lparr>streamedContent := streamedContent st @ msgText,
                                                   emitted := emitted st @ [DeltaEvent msgText]\<rparr>))
                                   else Inr st))))))"

definition processTolyMessage ::
  "(string \<Rightarrow> json option) \<Rightarrow> session \<Rightarrow> string \<Rightarrow> bool \<Rightarrow> bool \<times> session" where
  "processTolyMessage parse st content isEnd =
     (case processTolyMessage_try parse st content of
        Inr st' \<Rightarrow> (True, st')
      | Inl error \<Rightarrow>
          if isEnd then (True, st\<lparr>logged := logged st @ [TolyParseFailedAtEnd content]\<rparr>)
          else (False, st))"

text \<open>\<open>processMessages\<close> is only ever called with the two pairs of identifier and processor
  of \<open>processBufferedData\<close>; the message type selects the pair.\<close>

fun processor ::
  "message_type \<Rightarrow> (string \<Rightarrow> json option) \<Rightarrow> session \<Rightarrow> string \<Rightarrow> bool \<Rightarrow> bool \<times> session"
where
  "processor TOOL = processToolMessage"
| "processor TOLY = processTolyMessage"

lemma processToolMessage_rawBuffer:
  "rawBuffer (snd (processToolMessage parse st content isEnd)) = rawBuffer st"
  by (simp add: processToolMessage_def processToolMessage_try_def Let_def
           split: option.splits sum.splits)

lemma processTolyMessage_rawBuffer:
  "rawBuffer (snd (processTolyMessage parse st content isEnd)) = rawBuffer st"
  by (simp add: processTolyMessage_def processTolyMessage_try_def Let_def
           split: option.splits sum.splits)

lemma processor_rawBuffer:
  "rawBuffer (snd (processor k parse st content isEnd)) = rawBuffer st"
  by (cases k) (simp_all add: processToolMessage_rawBuffer processTolyMessage_rawBuffer)

lemma find_at_Some:
  "find_at needle xs i = Some n \<Longrightarrow>
     i \<le> n \<and> n + length needle \<le> i + length xs \<and> prefix needle (drop (n - i) xs)"
proof (induction xs arbitrary: i)
  case Nil
  then show ?case by (simp split: if_splits)
next
  case (Cons c cs)
  show ?case
  proof (cases "prefix needle (c # cs)")
    case True
    with Cons.prems show ?thesis by (auto dest: prefix_length_le)
  next
    case False
    with Cons.prems have "find_at needle cs (Suc i) = Some n" by simp
    from Cons.IH [OF this]
    have a: "Suc i \<le> n" and b: "n + length needle \<le> Suc i + length cs"
      and c: "prefix needle (drop (n - Suc i) cs)" by simp_all
    from a have d: "n - i = Suc (n - Suc i)" by arith
    from a have "i \<le> n" by arith
    moreover from b have "n + length needle \<le> i + length (c # cs)" by simp
    moreover from c have "prefix needle (drop (n - i) (c # cs))" by (simp add: d)
    ultimately show ?thesis by blast
  qed
qed

lemma indexOf_Some:
  assumes "indexOf s needle from = Some n"
  shows "min from (length s) \<le> n \<and> n + length needle \<le> length s \<and> prefix needle (drop n s)"
proof -
  define m where "m = min from (length s)"
  have ml: "m \<le> length s" by (simp add: m_def)
  have d: "drop from s = drop m s" by (simp add: m_def min_def)
  from assms have "find_at needle (drop from s) m = Some n"
    by (simp add: indexOf_def m_def)
  with d have f: "find_at needle (drop m s) m = Some n" by simp
  from find_at_Some [OF f]
  have a: "m \<le> n" and b: "n + length needle \<le> m + length (drop m s)"
    and c: "prefix needle (drop (n - m) (drop m s))"
    by blast+
  from a have e: "n - m + m = n" by simp
  from ml have "m + length (drop m s) = length s" by simp
  with b have "n + length needle \<le> length s" by simp
  moreover from c have "prefix needle (drop n s)" by (simp add: e)
  ultimately show ?thesis using a by (simp add: m_def)
qed

lemma indexOf_len6_Some:
  assumes "indexOf s needle from = Some n" and "length needle = 6"
  shows "from \<le> n \<and> n + 6 \<le> length s"
proof -
  from indexOf_Some [OF assms(1)] assms(2)
  have "min from (length s) \<le> n" and "n + 6 \<le> length s" by simp_all
  then show ?thesis by (auto simp: min_def split: if_splits)
qed

lemma indexOf_tag_Some:
  assumes "indexOf s (MESSAGE_TYPES k) from = Some n"
  shows "from \<le> n \<and> n + 6 \<le> length s"
proof -
  have l: "length (MESSAGE_TYPES k) = 6" by (cases k) simp_all
  from indexOf_len6_Some [OF assms l] show ?thesis .
qed

lemma findNextMessageStart_cases:
  "findNextMessageStart buf p =
     (case indexOf buf ''Tool :'' (p + 6) of
        None \<Rightarrow> indexOf buf ''Toly :'' (p + 6)
      | Some a \<Rightarrow> (case indexOf buf ''Toly :'' (p + 6) of
                    None \<Rightarrow> Some a
                  | Some b \<Rightarrow> if b < a then Some b else Some a))"
  by (simp add: findNextMessageStart_def keep_least_def IDENTIFIER_LENGTH_def
           split: option.splits)

lemma findNextMessageStart_Some:
  assumes "findNextMessageStart buf p = Some n"
  shows "p + 6 \<le> n \<and> n + 6 \<le> length buf"
proof -
  from assms
  have "indexOf buf ''Tool :'' (p + 6) = Some n \<or> indexOf buf ''Toly :'' (p + 6) = Some n"
    by (auto simp: findNextMessageStart_cases split: option.splits if_splits)
  then show ?thesis
  proof
    assume "indexOf buf ''Tool :'' (p + 6) = Some n"
    from indexOf_len6_Some [OF this] show ?thesis by simp
  next
    assume "indexOf buf ''Toly :'' (p + 6) = Some n"
    from indexOf_len6_Some [OF this] show ?thesis by simp
  qed
qed

text \<open>The \<open>while (true)\<close> loop of \<open>processMessages\<close>. Each round that does not \<open>break\<close>
  replaces the buffer by a strictly shorter one.\<close>

function processMessages ::
  "(string \<Rightarrow> json option) \<Rightarrow> message_type \<Rightarrow> bool \<Rightarrow> session \<Rightarrow> session" where
  "processMessages parse k isEnd st =
     (case indexOf (rawBuffer st) (MESSAGE_TYPES k) 0 of
        None \<Rightarrow> st
      | Some msgStart \<Rightarrow>
          (let (content, nextMsgStart) = extractMessageContent (rawBuffer st) msgStart in
           if nextMsgStart = None \<and> \<not> isEnd then st
           else
             (let (processed, st') = processor k parse st content isEnd in
              if processed
              then processMessages parse k isEnd
                     (st'\<lparr>rawBuffer := (case nextMsgStart of
                                          Some n \<Rightarrow> substring_from (rawBuffer st') n
                                        | None \<Rightarrow> [])\<rparr>)
              else if \<not> isEnd then st'
              else processMessages parse k isEnd
                     (st'\<lparr>rawBuffer := (case nextMsgStart of
                                          Some n \<Rightarrow> substring_from (rawBuffer st') n
                                        | None \<Rightarrow> [])\<rparr>))))"
  by pat_completeness auto

lemma consumed_buffer_shorter:
  assumes m: "indexOf (rawBuffer st) (MESSAGE_TYPES k) 0 = Some msgStart"
    and e: "extractMessageContent (rawBuffer st) msgStart = (content, nextMsgStart)"
    and p: "processor k parse st content isEnd = (processed, st')"
  shows "length (case nextMsgStart of Some n \<Rightarrow> substring_from (rawBuffer st') n | None \<Rightarrow> [])
           < length (rawBuffer st)"
proof -
  from p have b: "rawBuffer st' = rawBuffer st"
    using processor_rawBuffer [of k parse st content isEnd] by simp
  from indexOf_tag_Some [OF m] have l: "6 \<le> length (rawBuffer st)" by simp
  from e have n: "nextMsgStart = findNextMessageStart (rawBuffer st) msgStart"
    by (simp add: extractMessageContent_def Let_def)
  show ?thesis
  proof (cases nextMsgStart)
    case None
    with l show ?thesis by auto
  next
    case (Some q)
    with n have "findNextMessageStart (rawBuffer st) msgStart = Some q" by simp
    from findNextMessageStart_Some [OF this]
    have "0 < q" and "q \<le> length (rawBuffer st)" by simp_all
    then have "length (rawBuffer st) - q < length (rawBuffer st)" by arith
    with Some b show ?thesis by (simp add: substring_from_def)
  qed
qed

termination processMessages
proof (relation "measure (\<lambda>(parse, k, isEnd, st). length (rawBuffer st))")
  show "wf (measure (\<lambda>(parse, k, isEnd, st). length (rawBuffer st)))" by simp
next
  fix parse k isEnd st msgStart x content nextMsgStart y processed st'
  assume "indexOf (rawBuffer st) (MESSAGE_TYPES k) 0 = Some msgStart"
    and "x = extractMessageContent (rawBuffer st) msgStart"
    and "(content, nextMsgStart) = x"
    and "y = processor k parse st content isEnd"
    and "(processed, st') = y"
  then show "((parse, k, isEnd,
               st'\<lparr>rawBuffer := (case nextMsgStart of
                                    Some n \<Rightarrow> substring_from (rawBuffer st') n
                                  | None \<Rightarrow> [])\<rparr>),
              (parse, k, isEnd, st))
             \<in> measure (\<lambda>(parse, k, isEnd, st). length (rawBuffer st))"
    using consumed_buffer_shorter [of st k msgStart content nextMsgStart parse isEnd processed st']
    by simp
next
  fix parse k isEnd st msgStart x content nextMsgStart y processed st'
  assume "indexOf (rawBuffer st) (MESSAGE_TYPES k) 0 = Some msgStart"
    and "x = extractMessageContent (rawBuffer st) msgStart"
    and "(content, nextMsgStart) = x"
    and "y = processor k parse st content isEnd"
    and "(processed, st') = y"
  then show "((parse, k, isEnd,
               st'\<lparr>rawBuffer := (case nextMsgStart of
                                    Some n \<Rightarrow> substring_from (rawBuffer st') n
                                  | None \<Rightarrow> [])\<rparr>),
              (parse, k, isEnd, st))
             \<in> measure (\<lambda>(parse, k, isEnd, st). length (rawBuffer st))"
    using consumed_buffer_shorter [of st k msgStart content nextMsgStart parse isEnd processed st']
    by simp
qed

declare processMessages.simps [simp del]

text \<open>\<open>processBufferedData\<close>: the tool notices first, then the model tokens.\<close>

definition processBufferedData :: "(string \<Rightarrow> json option) \<Rightarrow> bool \<Rightarrow> session \<Rightarrow> session" where
  "processBufferedData parse isEnd st =
     processMessages parse TOLY isEnd (processMessages parse TOOL isEnd st)"

text \<open>The \<open>'data'\<close> handler, on \<open>chunk.toString('utf-8')\<close>, the text of the chunk; nothing in
  its \<open>try\<close> block throws.\<close>

definition on_data :: "(string \<Rightarrow> json option) \<Rightarrow> string \<Rightarrow> session \<Rightarrow> session" where
  "on_data parse text st =
     processBufferedData parse False
       (st\<lparr>logged := logged st @ [RawChunk text], rawBuffer := rawBuffer st @ text\<rparr>)"

text \<open>The \<open>'end'\<close> handler.\<close>

definition on_end :: "(string \<Rightarrow> json option) \<Rightarrow> session \<Rightarrow> session" where
  "on_end parse st =
     (let st1 = processBufferedData parse True st;
          st2 = st1\<lparr>logged := logged st1 @ [CompleteContent (streamedContent st1)]\<rparr>;
          st3 = st2\<lparr>emitted := emitted st2 @ [ContentEvent (streamedContent st2)]\<rparr>
      in st3\<lparr>completed := True\<rparr>)"

text \<open>One request: the chunks in arrival order, then the end of the stream.\<close>

definition feed :: "(string \<Rightarrow> json option) \<Rightarrow> string list \<Rightarrow> session \<Rightarrow> session" where
  "feed parse chunks st = foldl (\<lambda>s text. on_data parse text s) st chunks"

definition run :: "(string \<Rightarrow> json option) \<Rightarrow> string list \<Rightarrow> session" where
  "run parse chunks = on_end parse (feed parse chunks init)"


section \<open>A decoder for a fragment of JSON\<close>

text \<open>
  The closed examples below need a concrete \<open>JSON.parse\<close>. \<open>JSON_parse\<close> decodes the
  fragment of JSON they use: objects, arrays, strings with the single-character escapes,
  \<open>null\<close>, \<open>true\<close>, \<open>false\<close> and integers of at most 15 digits, with the white space JSON
  allows. A later duplicate of a key replaces the value of the earlier one, as the runtime
  does. Outside the fragment (fractions, exponents, \<open>\u\<close> escapes, keys that are array
  indices) it answers \<open>None\<close>; no example relies on that.
\<close>

definition is_json_ws :: "char \<Rightarrow> bool" where
  "is_json_ws c \<longleftrightarrow> c \<in> {CHR 0x20, CHR 0x09, CHR 0x0A, CHR 0x0D}"

definition skip_ws :: "string \<Rightarrow> string" where
  "skip_ws s = dropWhile is_json_ws s"

definition is_digit :: "char \<Rightarrow> bool" where
  "is_digit c \<longleftrightarrow> c \<in> set ''0123456789''"

definition unescape :: "char \<Rightarrow> char option" where
  "unescape e =
     (if e = CHR ''\"'' then Some (CHR ''\"'')
      else if e = CHR 0x5C then Some (CHR 0x5C)
      else if e = CHR ''/'' then Some (CHR ''/'')
      else if e = CHR ''b'' then Some (CHR 0x08)
      else if e = CHR ''f'' then Some (CHR 0x0C)
      else if e = CHR ''n'' then Some (CHR 0x0A)
      else if e = CHR ''r'' then Some (CHR 0x0D)
      else if e = CHR ''t'' then Some (CHR 0x09)
      else None)"

text \<open>The characters of a string literal after its opening quote, up to the closing one.\<close>

fun parse_chars :: "string \<Rightarrow> (string \<times> string) option" where
  "parse_chars [] = None"
| "parse_chars (c # cs) =
     (if c = CHR ''\"'' then Some ([], cs)
      else if c = CHR 0x5C then
        (case cs of
           [] \<Rightarrow> None
         | e # cs' \<Rightarrow>
             (case unescape e of
                None \<Rightarrow> None
              | Some d \<Rightarrow>
                  (case parse_chars cs' of
                     None \<Rightarrow> None
                   | Some (s, r) \<Rightarrow> Some (d # s, r))))
      else if (of_char c :: nat) < 32 then None
      else (case parse_chars cs of
              None \<Rightarrow> None
            | Some (s, r) \<Rightarrow> Some (c # s, r)))"

definition parse_number :: "string \<Rightarrow> (string \<times> string) option" where
  "parse_number s =
     (let neg = (s \<noteq> [] \<and> hd s = CHR ''-'');
          t = (if neg then tl s else s);
          ds = takeWhile is_digit t;
          r = dropWhile is_digit t
      in if ds = [] \<or> 15 < length ds then None
         else if hd ds = CHR ''0'' \<and> 1 < length ds then None
         else if r \<noteq> [] \<and> hd r \<in> {CHR ''.'', CHR ''e'', CHR ''E''} then None
         else if ds = ''0'' then Some (''0'', r)
         else Some ((if neg then ''-'' else []) @ ds, r))"

definition add_member :: "string \<Rightarrow> json \<Rightarrow> (string \<times> json) list \<Rightarrow> (string \<times> json) list" where
  "add_member k v kvs =
     (k, case map_of kvs k of None \<Rightarrow> v | Some v' \<Rightarrow> v') # filter (\<lambda>kv. fst kv \<noteq> k) kvs"

definition is_index_key :: "string \<Rightarrow> bool" where
  "is_index_key k \<longleftrightarrow> k \<noteq> [] \<and> list_all is_digit k"

fun parse_value :: "nat \<Rightarrow> string \<Rightarrow> (json \<times> string) option"
  and parse_elements :: "nat \<Rightarrow> string \<Rightarrow> (json list \<times> string) option"
  and parse_members :: "nat \<Rightarrow> string \<Rightarrow> ((string \<times> json) list \<times> string) option"
where
  "parse_value 0 s = None"
| "parse_value (Suc n) s =
     (case s of
        [] \<Rightarrow> None
      | c # cs \<Rightarrow>
          if c = CHR ''{'' then
            (case skip_ws cs of
               [] \<Rightarrow> None
             | d # r \<Rightarrow>
                 if d = CHR ''}'' then Some (JObj [], r)
                 else (case parse_members n (d # r) of
                         None \<Rightarrow> None
                       | Some (kvs, r') \<Rightarrow> Some (JObj kvs, r')))
          else if c = CHR ''['' then
            (case skip_ws cs of
               [] \<Rightarrow> None
             | d # r \<Rightarrow>
                 if d = CHR '']'' then Some (JArr [], r)
                 else (case parse_elements n (d # r) of
                         None \<Rightarrow> None
                       | Some (vs, r') \<Rightarrow> Some (JArr vs, r')))
          else if c = CHR ''\"'' then
            (case parse_chars cs of
               None \<Rightarrow> None
             | Some (str, r) \<Rightarrow> Some (JStr str, r))
          else if prefix ''null'' s then Some (JNull, drop 4 s)
          else if prefix ''true'' s then Some (JBool True, drop 4 s)
          else if prefix ''false'' s then Some (JBool False, drop 5 s)
          else (case parse_number s of
                  None \<Rightarrow> None
                | Some (num, r) \<Rightarrow> Some (JNum num, r)))"
| "parse_elements 0 s = None"
| "parse_elements (Suc n) s =
     (case parse_value n (skip_ws s) of
        None \<Rightarrow> None
      | Some (v, r) \<Rightarrow>
          (case skip_ws r of
             [] \<Rightarrow> None
           | d # r' \<Rightarrow>
               if d = CHR '','' then
                 (case parse_elements n r' of
                    None \<Rightarrow> None
                  | Some (vs, r'') \<Rightarrow> Some (v # vs, r''))
               else if d = CHR '']'' then Some ([v], r')
               else None))"
| "parse_members 0 s = None"
| "parse_members (Suc n) s =
     (case skip_ws s of
        [] \<Rightarrow> None
      | q # cs \<Rightarrow>
          if q \<noteq> CHR ''\"'' then None
          else
            (case parse_chars cs of
               None \<Rightarrow> None
             | Some (k, r) \<Rightarrow>
                 if is_index_key k then None
                 else
                   (case skip_ws r of
                      [] \<Rightarrow> None
                    | colon # r1 \<Rightarrow>
                        if colon \<noteq> CHR '':'' then None
                        else
                          (case parse_value n (skip_ws r1) of
                             None \<Rightarrow> None
                           | Some (v, r2) \<Rightarrow>
                               (case skip_ws r2 of
                                  [] \<Rightarrow> None
                                | d # r3 \<Rightarrow>
                                    if d = CHR '','' then
                                      (case parse_members n r3 of
                                         None \<Rightarrow> None
                                       | Some (kvs, r4) \<Rightarrow> Some (add_member k v kvs, r4))
                                    else if d = CHR ''}'' then Some ([(k, v)], r3)
                                    else None)))))"

definition JSON_parse :: "string \<Rightarrow> json option" where
  "JSON_parse s =
     (case parse_value (Suc (length s)) (skip_ws s) of
        None \<Rightarrow> None
      | Some (v, r) \<Rightarrow> if skip_ws r = [] then Some v else None)"

section \<open>Frame conditions of the two processors\<close>

lemma processToolMessage_cases:
  "processToolMessage parse st content isEnd = (ok, st') \<Longrightarrow>
     (ok \<and> st' = st)
   \<or> (ok \<and> isEnd \<and> st' = st\<lparr>logged := logged st @ [ToolParseFailedAtEnd]\<rparr>)
   \<or> (\<not> ok \<and> \<not> isEnd \<and> st' = st)
   \<or> (\<exists>toolData key. ok \<and> parse (trim content) = Some toolData \<and> toolKey toolData = Inr key
         \<and> key \<notin> processedTools st
         \<and> st' = st\<lparr>processedTools := insert key (processedTools st),
                     emitted := emitted st @ [ToolEvent toolData]\<rparr>)"
  by (auto simp: processToolMessage_def processToolMessage_try_def Let_def
           split: option.splits sum.splits if_splits)

lemma processTolyMessage_cases:
  "processTolyMessage parse st content isEnd = (ok, st') \<Longrightarrow>
     (ok \<and> st' = st)
   \<or> (ok \<and> isEnd \<and> st' = st\<lparr>logged := logged st @ [TolyParseFailedAtEnd content]\<rparr>)
   \<or> (\<not> ok \<and> \<not> isEnd \<and> st' = st)
   \<or> (\<exists>text. ok \<and> st' = st\<lparr>streamedContent := streamedContent st @ text,
                               emitted := emitted st @ [DeltaEvent text]\<rparr>)"
  by (auto simp: processTolyMessage_def processTolyMessage_try_def Let_def
           split: option.splits sum.splits if_splits)

text \<open>
  C9. Processing a tool frame never modifies the transcript, and processing a model
  (Toly) frame never modifies the tool dedup set: for every decoder, every session state,
  every body and every value of the final-flush flag, \<open>processToolMessage\<close> leaves
  \<open>streamedContent\<close> unchanged and \<open>processTolyMessage\<close> leaves \<open>processedTools\<close> unchanged.
\<close>

theorem processors_frame_effect:
  "streamedContent (snd (processToolMessage parse st content isEnd)) = streamedContent st
   \<and> processedTools (snd (processTolyMessage parse st content isEnd)) = processedTools st"
proof
  obtain ok st' where p: "processToolMessage parse st content isEnd = (ok, st')"
    by (cases "processToolMessage parse st content isEnd")
  from processToolMessage_cases [OF p] have "streamedContent st' = streamedContent st"
    by auto
  with p show "streamedContent (snd (processToolMessage parse st content isEnd))
                 = streamedContent st" by simp
next
  obtain ok st' where p: "processTolyMessage parse st content isEnd = (ok, st')"
    by (cases "processTolyMessage parse st content isEnd")
  from processTolyMessage_cases [OF p] have "processedTools st' = processedTools st"
    by auto
  with p show "processedTools (snd (processTolyMessage parse st content isEnd))
                 = processedTools st" by simp
qed

section \<open>One round of the loop\<close>

text \<open>The body of the \<open>while (true)\<close> loop as a function of its own: \<open>Some\<close> of the next
  state when the round consumed a frame and the loop goes round again, \<open>None\<close> when the
  round ends in a \<open>break\<close>.\<close>

definition rest_buffer :: "string \<Rightarrow> nat \<Rightarrow> string" where
  "rest_buffer buf msgStart =
     (case findNextMessageStart buf msgStart of
        Some n \<Rightarrow> substring_from buf n
      | None \<Rightarrow> [])"

definition round :: "(string \<Rightarrow> json option) \<Rightarrow> message_type \<Rightarrow> bool \<Rightarrow> session \<Rightarrow> session option"
where
  "round parse k isEnd st =
     (case indexOf (rawBuffer st) (MESSAGE_TYPES k) 0 of
        None \<Rightarrow> None
      | Some msgStart \<Rightarrow>
          if findNextMessageStart (rawBuffer st) msgStart = None \<and> \<not> isEnd then None
          else
            (let r = processor k parse st (fst (extractMessageContent (rawBuffer st) msgStart)) isEnd
             in if fst r then Some ((snd r)\<lparr>rawBuffer := rest_buffer (rawBuffer st) msgStart\<rparr>)
                else None))"

lemma processor_refused:
  assumes "\<not> fst (processor k parse st content isEnd)"
  shows "\<not> isEnd \<and> snd (processor k parse st content isEnd) = st"
proof (cases k)
  case TOOL
  obtain ok st' where p: "processToolMessage parse st content isEnd = (ok, st')"
    by (cases "processToolMessage parse st content isEnd")
  with assms TOOL have "\<not> ok" by simp
  with processToolMessage_cases [OF p] p TOOL show ?thesis by auto
next
  case TOLY
  obtain ok st' where p: "processTolyMessage parse st content isEnd = (ok, st')"
    by (cases "processTolyMessage parse st content isEnd")
  with assms TOLY have "\<not> ok" by simp
  with processTolyMessage_cases [OF p] p TOLY show ?thesis by auto
qed

lemma processMessages_unfold:
  "processMessages parse k isEnd st =
     (case round parse k isEnd st of
        None \<Rightarrow> st
      | Some st' \<Rightarrow> processMessages parse k isEnd st')"
proof (cases "indexOf (rawBuffer st) (MESSAGE_TYPES k) 0")
  case None
  then show ?thesis by (simp add: processMessages.simps [of parse k isEnd st] round_def)
next
  case (Some msgStart)
  define c where "c = fst (extractMessageContent (rawBuffer st) msgStart)"
  define n where "n = findNextMessageStart (rawBuffer st) msgStart"
  have e: "extractMessageContent (rawBuffer st) msgStart = (c, n)"
    by (simp add: extractMessageContent_def Let_def c_def n_def)
  obtain ok st' where p: "processor k parse st c isEnd = (ok, st')"
    by (cases "processor k parse st c isEnd")
  have b: "rawBuffer st' = rawBuffer st"
    using processor_rawBuffer [of k parse st c isEnd] p by simp
  have r: "round parse k isEnd st =
             (if n = None \<and> \<not> isEnd then None
              else if ok then Some (st'\<lparr>rawBuffer := rest_buffer (rawBuffer st) msgStart\<rparr>)
              else None)"
    using Some p
    by (cases isEnd) (simp_all add: round_def Let_def c_def [symmetric] n_def [symmetric])
  have rb: "rest_buffer (rawBuffer st) msgStart
              = (case n of None \<Rightarrow> [] | Some x \<Rightarrow> substring_from (rawBuffer st') x)"
    by (simp add: rest_buffer_def n_def b split: option.splits)
  have u: "processMessages parse k isEnd st =
             (if n = None \<and> \<not> isEnd then st
              else if ok
                then processMessages parse k isEnd
                       (st'\<lparr>rawBuffer := rest_buffer (rawBuffer st) msgStart\<rparr>)
              else if \<not> isEnd then st'
              else processMessages parse k isEnd
                       (st'\<lparr>rawBuffer := rest_buffer (rawBuffer st) msgStart\<rparr>))"
    using Some e p
    apply (subst processMessages.simps)
    apply (cases isEnd)
     apply (simp_all add: rb)
    done
  show ?thesis
  proof (cases ok)
    case True
    with u r show ?thesis by simp
  next
    case False
    with p processor_refused [of k parse st c isEnd] have "\<not> isEnd" and "st' = st" by simp_all
    with u r False show ?thesis by simp
  qed
qed

lemma round_shorter:
  assumes "round parse k isEnd st = Some st'"
  shows "length (rawBuffer st') < length (rawBuffer st)"
proof -
  from assms obtain msgStart where m: "indexOf (rawBuffer st) (MESSAGE_TYPES k) 0 = Some msgStart"
    by (auto simp: round_def split: option.splits)
  define c where "c = fst (extractMessageContent (rawBuffer st) msgStart)"
  define n where "n = findNextMessageStart (rawBuffer st) msgStart"
  have e: "extractMessageContent (rawBuffer st) msgStart = (c, n)"
    by (simp add: extractMessageContent_def Let_def c_def n_def)
  obtain ok s1 where p: "processor k parse st c isEnd = (ok, s1)"
    by (cases "processor k parse st c isEnd")
  have b: "rawBuffer s1 = rawBuffer st"
    using processor_rawBuffer [of k parse st c isEnd] p by simp
  from assms m p have "rawBuffer st' = rest_buffer (rawBuffer st) msgStart"
    by (auto simp: round_def Let_def c_def [symmetric] split: if_splits)
  moreover have "length (rest_buffer (rawBuffer st) msgStart) < length (rawBuffer st)"
    using consumed_buffer_shorter [OF m e p]
    by (simp add: rest_buffer_def n_def [symmetric] b split: option.splits)
  ultimately show ?thesis by simp
qed

lemma processMessages_induct [case_names round]:
  assumes "\<And>st. (\<And>st'. round parse k isEnd st = Some st' \<Longrightarrow> P st') \<Longrightarrow> P st"
  shows "P st"
proof (induction "length (rawBuffer st)" arbitrary: st rule: less_induct)
  case less
  show ?case
  proof (rule assms)
    fix st'
    assume "round parse k isEnd st = Some st'"
    from round_shorter [OF this] show "P st'" by (rule less)
  qed
qed

text \<open>Whatever both a processor and a change of the buffer preserve, a pass preserves.\<close>

lemma round_preserves:
  assumes step: "\<And>s c. P s \<Longrightarrow> P (snd (processor k parse s c isEnd))"
    and buf: "\<And>s b. P s \<Longrightarrow> P (s\<lparr>rawBuffer := b\<rparr>)"
    and "P st" and "round parse k isEnd st = Some st'"
  shows "P st'"
  using assms(3,4) step buf
  by (auto simp: round_def Let_def split: option.splits if_splits)

lemma processMessages_preserves:
  assumes step: "\<And>s c. P s \<Longrightarrow> P (snd (processor k parse s c isEnd))"
    and buf: "\<And>s b. P s \<Longrightarrow> P (s\<lparr>rawBuffer := b\<rparr>)"
    and "P st"
  shows "P (processMessages parse k isEnd st)"
  using assms(3)
proof (induction st rule: processMessages_induct [where parse = parse and k = k and isEnd = isEnd])
  case (round st)
  show ?case
  proof (cases "round parse k isEnd st")
    case None
    with round.prems show ?thesis by (simp add: processMessages_unfold [of parse k isEnd st])
  next
    case (Some st')
    from round_preserves [of P k parse isEnd st st', OF step buf round.prems Some]
    have "P st'" .
    from round.IH [OF Some this] Some show ?thesis
      by (simp add: processMessages_unfold [of parse k isEnd st])
  qed
qed

section \<open>The transcript\<close>

fun is_content :: "event \<Rightarrow> bool" where
  "is_content (ContentEvent t) = True"
| "is_content e = False"

fun delta_text :: "event \<Rightarrow> string" where
  "delta_text (DeltaEvent t) = t"
| "delta_text e = []"

text \<open>The concatenation, in emission order, of the text deltas among some events.\<close>

definition transcript_of :: "event list \<Rightarrow> string" where
  "transcript_of evs = concat (map delta_text evs)"

definition transcript_inv :: "session \<Rightarrow> bool" where
  "transcript_inv st \<longleftrightarrow>
     streamedContent st = transcript_of (emitted st) \<and> filter is_content (emitted st) = []"

lemma transcript_inv_init: "transcript_inv init"
  by (simp add: transcript_inv_def init_def transcript_of_def)

lemma transcript_inv_buffer: "transcript_inv st \<Longrightarrow> transcript_inv (st\<lparr>rawBuffer := b\<rparr>)"
  by (simp add: transcript_inv_def)

lemma transcript_inv_processor:
  assumes "transcript_inv st"
  shows "transcript_inv (snd (processor k parse st c isEnd))"
proof (cases k)
  case TOOL
  obtain ok st' where p: "processToolMessage parse st c isEnd = (ok, st')"
    by (cases "processToolMessage parse st c isEnd")
  from processToolMessage_cases [OF p] assms have "transcript_inv st'"
    by (auto simp: transcript_inv_def transcript_of_def)
  with p TOOL show ?thesis by simp
next
  case TOLY
  obtain ok st' where p: "processTolyMessage parse st c isEnd = (ok, st')"
    by (cases "processTolyMessage parse st c isEnd")
  from processTolyMessage_cases [OF p] assms have "transcript_inv st'"
    by (auto simp: transcript_inv_def transcript_of_def)
  with p TOLY show ?thesis by simp
qed

lemma transcript_inv_processMessages:
  assumes "transcript_inv st"
  shows "transcript_inv (processMessages parse k isEnd st)"
proof (rule processMessages_preserves [where P = transcript_inv])
  fix s c
  assume "transcript_inv s"
  then show "transcript_inv (snd (processor k parse s c isEnd))"
    by (rule transcript_inv_processor)
next
  fix s b
  assume "transcript_inv s"
  then show "transcript_inv (s\<lparr>rawBuffer := b\<rparr>)"
    by (rule transcript_inv_buffer)
next
  show "transcript_inv st" by fact
qed

lemma transcript_inv_processBufferedData:
  assumes "transcript_inv st"
  shows "transcript_inv (processBufferedData parse isEnd st)"
  unfolding processBufferedData_def
  by (intro transcript_inv_processMessages assms)

lemma transcript_inv_on_data:
  assumes "transcript_inv st"
  shows "transcript_inv (on_data parse text st)"
proof -
  from assms
  have "transcript_inv (st\<lparr>logged := logged st @ [RawChunk text], rawBuffer := rawBuffer st @ text\<rparr>)"
    by (simp add: transcript_inv_def)
  then show ?thesis
    unfolding on_data_def by (rule transcript_inv_processBufferedData)
qed

lemma feed_Nil: "feed parse [] st = st"
  by (simp add: feed_def)

lemma feed_Cons: "feed parse (c # cs) st = feed parse cs (on_data parse c st)"
  by (simp add: feed_def)

lemma feed_append: "feed parse (cs @ ds) st = feed parse ds (feed parse cs st)"
  by (simp add: feed_def)

lemma transcript_inv_feed:
  "transcript_inv st \<Longrightarrow> transcript_inv (feed parse chunks st)"
  by (induction chunks arbitrary: st) (simp_all add: feed_Nil feed_Cons transcript_inv_on_data)

lemma on_end_emitted:
  "emitted (on_end parse st) =
     emitted (processBufferedData parse True st)
       @ [ContentEvent (streamedContent (processBufferedData parse True st))]"
  by (simp add: on_end_def Let_def)

text \<open>
  C4. For every run that reaches end-of-stream, exactly one terminal content event is
  emitted, and the text it carries equals the concatenation, in emission order, of every
  text delta emitted during the run (the accumulated transcript): the events of a run are
  the events \<open>evs\<close> emitted before the terminal event, none of which is a content event,
  followed by the one content event carrying \<open>transcript_of evs\<close>.
\<close>

theorem transcript_accumulation:
  "emitted (run parse chunks)
     = butlast (emitted (run parse chunks))
         @ [ContentEvent (transcript_of (butlast (emitted (run parse chunks))))]
   \<and> filter is_content (butlast (emitted (run parse chunks))) = []
   \<and> length (filter is_content (emitted (run parse chunks))) = 1
   \<and> streamedContent (run parse chunks) = transcript_of (butlast (emitted (run parse chunks)))
   \<and> completed (run parse chunks)"
proof -
  define st1 where "st1 = processBufferedData parse True (feed parse chunks init)"
  have "transcript_inv (feed parse chunks init)"
    by (rule transcript_inv_feed) (rule transcript_inv_init)
  then have "transcript_inv st1"
    unfolding st1_def by (rule transcript_inv_processBufferedData)
  then have t: "streamedContent st1 = transcript_of (emitted st1)"
    and n: "filter is_content (emitted st1) = []"
    by (simp_all add: transcript_inv_def)
  have e: "emitted (run parse chunks) = emitted st1 @ [ContentEvent (streamedContent st1)]"
    by (simp add: run_def on_end_emitted st1_def)
  have s: "streamedContent (run parse chunks) = streamedContent st1"
    by (simp add: run_def on_end_def Let_def st1_def)
  have c: "completed (run parse chunks)"
    by (simp add: run_def on_end_def Let_def)
  from e have b: "butlast (emitted (run parse chunks)) = emitted st1" by simp
  show ?thesis
    unfolding b using e t n s c by simp
qed

section \<open>Invariants of a session\<close>

lemma processBufferedData_preserves:
  assumes step: "\<And>k s c. P s \<Longrightarrow> P (snd (processor k parse s c isEnd))"
    and buf: "\<And>s b. P s \<Longrightarrow> P (s\<lparr>rawBuffer := b\<rparr>)"
    and "P st"
  shows "P (processBufferedData parse isEnd st)"
proof -
  have "P (processMessages parse TOOL isEnd st)"
  proof (rule processMessages_preserves [where P = P])
    fix s c assume "P s"
    then show "P (snd (processor TOOL parse s c isEnd))" by (rule step)
  next
    fix s b assume "P s"
    then show "P (s\<lparr>rawBuffer := b\<rparr>)" by (rule buf)
  next
    show "P st" by fact
  qed
  then have "P (processMessages parse TOLY isEnd (processMessages parse TOOL isEnd st))"
  proof (rule processMessages_preserves [where P = P, rotated 2])
    fix s c assume "P s"
    then show "P (snd (processor TOLY parse s c isEnd))" by (rule step)
  next
    fix s b assume "P s"
    then show "P (s\<lparr>rawBuffer := b\<rparr>)" by (rule buf)
  qed
  then show ?thesis by (simp add: processBufferedData_def)
qed

lemma on_data_preserves:
  assumes step: "\<And>k s c. P s \<Longrightarrow> P (snd (processor k parse s c False))"
    and buf: "\<And>s b. P s \<Longrightarrow> P (s\<lparr>rawBuffer := b\<rparr>)"
    and lg: "\<And>s l. P s \<Longrightarrow> P (s\<lparr>logged := l\<rparr>)"
    and "P st"
  shows "P (on_data parse text st)"
proof -
  from \<open>P st\<close> have "P (st\<lparr>logged := logged st @ [RawChunk text]\<rparr>)" by (rule lg)
  then have "P (st\<lparr>logged := logged st @ [RawChunk text], rawBuffer := rawBuffer st @ text\<rparr>)"
    using buf [of "st\<lparr>logged := logged st @ [RawChunk text]\<rparr>" "rawBuffer st @ text"] by simp
  then show ?thesis
    unfolding on_data_def
    by (rule processBufferedData_preserves [where P = P, rotated 2]) (erule step buf)+
qed

lemma feed_preserves:
  assumes step: "\<And>k s c. P s \<Longrightarrow> P (snd (processor k parse s c False))"
    and buf: "\<And>s b. P s \<Longrightarrow> P (s\<lparr>rawBuffer := b\<rparr>)"
    and lg: "\<And>s l. P s \<Longrightarrow> P (s\<lparr>logged := l\<rparr>)"
    and "P st"
  shows "P (feed parse chunks st)"
  using \<open>P st\<close>
proof (induction chunks arbitrary: st)
  case Nil
  then show ?case by (simp add: feed_Nil)
next
  case (Cons c cs)
  have "P (on_data parse c st)"
    by (rule on_data_preserves [where P = P, OF step buf lg Cons.prems])
  from Cons.IH [OF this] show ?case by (simp add: feed_Cons)
qed

section \<open>Deduplication of tool notices\<close>

text \<open>The dedup keys of the tool events among some events, in emission order.\<close>

fun event_keys :: "event \<Rightarrow> string list" where
  "event_keys (ToolEvent toolData) = (case toolKey toolData of Inr key \<Rightarrow> [key] | Inl e \<Rightarrow> [])"
| "event_keys e = []"

definition tool_keys :: "event list \<Rightarrow> string list" where
  "tool_keys evs = concat (map event_keys evs)"

text \<open>The key that \<open>processToolMessage\<close> derives from a frame body, when the body decodes
  and the key can be built.\<close>

definition tool_notice_key :: "(string \<Rightarrow> json option) \<Rightarrow> string \<Rightarrow> string option" where
  "tool_notice_key parse content =
     (case parse (trim content) of
        None \<Rightarrow> None
      | Some toolData \<Rightarrow> (case toolKey toolData of Inr key \<Rightarrow> Some key | Inl e \<Rightarrow> None))"

text \<open>Notices with the same name and the same keyword arguments derive the same key.\<close>

lemma toolKey_same_fields:
  assumes "getprop (Some a) ''tool_name'' = getprop (Some b) ''tool_name''"
    and "getprop (Some a) ''additional_kwargs'' = getprop (Some b) ''additional_kwargs''"
  shows "toolKey a = toolKey b"
  unfolding toolKey_def by (simp only: assms)

definition dedup_inv :: "session \<Rightarrow> bool" where
  "dedup_inv st \<longleftrightarrow>
     distinct (tool_keys (emitted st)) \<and> set (tool_keys (emitted st)) = processedTools st"

lemma dedup_inv_init: "dedup_inv init"
  by (simp add: dedup_inv_def init_def tool_keys_def)

lemma tool_keys_snoc: "tool_keys (evs @ [e]) = tool_keys evs @ event_keys e"
  by (simp add: tool_keys_def)

lemma distinct_count_one: "distinct xs \<Longrightarrow> x \<in> set xs \<Longrightarrow> count_list xs x = 1"
  by (induction xs) auto

lemma dedup_inv_count:
  assumes "dedup_inv st" and "key \<in> processedTools st"
  shows "count_list (tool_keys (emitted st)) key = 1"
  using assms by (simp add: dedup_inv_def distinct_count_one)

lemma processToolMessage_seen:
  assumes "tool_notice_key parse content = Some key" and "key \<in> processedTools st"
  shows "processToolMessage parse st content isEnd = (True, st)"
  using assms
  by (auto simp: tool_notice_key_def processToolMessage_def processToolMessage_try_def Let_def
           split: option.splits sum.splits)

lemma processToolMessage_unseen:
  assumes "tool_notice_key parse content = Some key" and "key \<notin> processedTools st"
  shows "\<exists>toolData. toolKey toolData = Inr key \<and>
           processToolMessage parse st content isEnd =
             (True, st\<lparr>processedTools := insert key (processedTools st),
                        emitted := emitted st @ [ToolEvent toolData]\<rparr>)"
  using assms
  by (auto simp: tool_notice_key_def processToolMessage_def processToolMessage_try_def Let_def
           split: option.splits sum.splits)

lemma dedup_inv_buffer: "dedup_inv st \<Longrightarrow> dedup_inv (st\<lparr>rawBuffer := b\<rparr>)"
  by (simp add: dedup_inv_def)

lemma dedup_inv_logged: "dedup_inv st \<Longrightarrow> dedup_inv (st\<lparr>logged := l\<rparr>)"
  by (simp add: dedup_inv_def)

lemma dedup_inv_tool_event:
  assumes "dedup_inv st" and "toolKey toolData = Inr key" and "key \<notin> processedTools st"
  shows "dedup_inv (st\<lparr>processedTools := insert key (processedTools st),
                        emitted := emitted st @ [ToolEvent toolData]\<rparr>)"
proof -
  from assms(1) have d: "distinct (tool_keys (emitted st))"
    and m: "set (tool_keys (emitted st)) = processedTools st"
    by (simp_all add: dedup_inv_def)
  from assms(2) have k: "tool_keys (emitted st @ [ToolEvent toolData]) = tool_keys (emitted st) @ [key]"
    by (simp add: tool_keys_snoc)
  from d m assms(3) show ?thesis
    by (simp add: dedup_inv_def k)
qed

lemma dedup_inv_delta_event:
  assumes "dedup_inv st"
  shows "dedup_inv (st\<lparr>streamedContent := t, emitted := emitted st @ [DeltaEvent text]\<rparr>)"
  using assms by (simp add: dedup_inv_def tool_keys_snoc)

lemma dedup_inv_processor:
  assumes "dedup_inv st"
  shows "dedup_inv (snd (processor k parse st c isEnd))"
proof (cases k)
  case TOOL
  obtain ok st' where p: "processToolMessage parse st c isEnd = (ok, st')"
    by (cases "processToolMessage parse st c isEnd")
  from processToolMessage_cases [OF p] assms have "dedup_inv st'"
    by (auto simp: dedup_inv_logged dedup_inv_tool_event)
  with p TOOL show ?thesis by simp
next
  case TOLY
  obtain ok st' where p: "processTolyMessage parse st c isEnd = (ok, st')"
    by (cases "processTolyMessage parse st c isEnd")
  from processTolyMessage_cases [OF p] assms have "dedup_inv st'"
    by (auto simp: dedup_inv_logged dedup_inv_delta_event)
  with p TOLY show ?thesis by simp
qed

lemma processor_keeps_key:
  assumes "key \<in> processedTools st"
  shows "key \<in> processedTools (snd (processor k parse st c isEnd))"
proof (cases k)
  case TOOL
  obtain ok st' where p: "processToolMessage parse st c isEnd = (ok, st')"
    by (cases "processToolMessage parse st c isEnd")
  from processToolMessage_cases [OF p] assms have "key \<in> processedTools st'"
    by auto
  with p TOOL show ?thesis by simp
next
  case TOLY
  obtain ok st' where p: "processTolyMessage parse st c isEnd = (ok, st')"
    by (cases "processTolyMessage parse st c isEnd")
  from processTolyMessage_cases [OF p] assms have "key \<in> processedTools st'"
    by auto
  with p TOLY show ?thesis by simp
qed

text \<open>The invariant together with "the key has been recorded".\<close>

definition recorded :: "string \<Rightarrow> session \<Rightarrow> bool" where
  "recorded key st \<longleftrightarrow> dedup_inv st \<and> key \<in> processedTools st"

lemma recorded_processor: "recorded key st \<Longrightarrow> recorded key (snd (processor k parse st c isEnd))"
  by (simp add: recorded_def dedup_inv_processor processor_keeps_key)

lemma recorded_buffer: "recorded key st \<Longrightarrow> recorded key (st\<lparr>rawBuffer := b\<rparr>)"
  by (simp add: recorded_def dedup_inv_def)

lemma recorded_logged: "recorded key st \<Longrightarrow> recorded key (st\<lparr>logged := l\<rparr>)"
  by (simp add: recorded_def dedup_inv_def)

lemma recorded_feed: "recorded key st \<Longrightarrow> recorded key (feed parse chunks st)"
  by (rule feed_preserves [where P = "recorded key"])
     (erule recorded_processor recorded_buffer recorded_logged | assumption)+

lemma recorded_on_end:
  assumes "recorded key st"
  shows "recorded key (on_end parse st)"
proof -
  have "recorded key (processBufferedData parse True st)"
    by (rule processBufferedData_preserves [where P = "recorded key"])
       (erule recorded_processor recorded_buffer | rule assms)+
  then show ?thesis
    by (simp add: on_end_def Let_def recorded_def dedup_inv_def tool_keys_def)
qed

lemma dedup_inv_feed: "dedup_inv st \<Longrightarrow> dedup_inv (feed parse chunks st)"
  by (rule feed_preserves [where P = dedup_inv])
     (erule dedup_inv_processor dedup_inv_buffer dedup_inv_logged | assumption)+

lemma recorded_processToolMessage:
  assumes "dedup_inv st" and "tool_notice_key parse content = Some key"
  shows "recorded key (snd (processToolMessage parse st content isEnd))"
proof (cases "key \<in> processedTools st")
  case True
  with assms processToolMessage_seen [OF assms(2) True, of isEnd] show ?thesis
    by (simp add: recorded_def)
next
  case False
  from processToolMessage_unseen [OF assms(2) False, of isEnd]
  obtain toolData where k: "toolKey toolData = Inr key"
    and p: "processToolMessage parse st content isEnd =
             (True, st\<lparr>processedTools := insert key (processedTools st),
                        emitted := emitted st @ [ToolEvent toolData]\<rparr>)"
    by blast
  from dedup_inv_tool_event [OF assms(1) k False] show ?thesis
    by (simp add: p recorded_def)
qed

lemma dedup_inv_on_end:
  assumes "dedup_inv st"
  shows "dedup_inv (on_end parse st)"
proof -
  have "dedup_inv (processBufferedData parse True st)"
    by (rule processBufferedData_preserves [where P = dedup_inv])
       (erule dedup_inv_processor dedup_inv_buffer | rule assms)+
  then show ?thesis
    by (simp add: on_end_def Let_def dedup_inv_def tool_keys_def)
qed

text \<open>
  What the dedup set guarantees of the notices that reach \<open>processToolMessage\<close>. Let two
  tool-notice bodies derive the same dedup key (as bodies with identical \<open>tool_name\<close> and
  identical \<open>additional_kwargs\<close> do). In one session, after any chunks \<open>before\<close>, the first
  notice is processed; after any chunks \<open>between\<close>, the second; then any chunks \<open>after\<close> and
  the end of the stream. Then exactly one tool event with that key has been emitted once
  the first notice is processed, the second notice changes nothing (it emits no event),
  exactly one tool event with that key has been emitted when the session completes, and no
  key at all is emitted twice. Nor is any key emitted twice in the run over any chunks
  whatever. The count is of keys, and of notices that are dispatched: a frame of the
  stream need not reach the processor, and two different notices can derive one key.
\<close>

theorem dedup_idempotence:
  assumes "tool_notice_key parse body1 = Some key"
    and "tool_notice_key parse body2 = Some key"
  shows "let st0 = feed parse before init;
             st1 = snd (processToolMessage parse st0 body1 isEnd);
             st2 = feed parse between st1;
             st3 = snd (processToolMessage parse st2 body2 isEnd');
             st4 = on_end parse (feed parse after st3)
         in count_list (tool_keys (emitted st1)) key = 1
          \<and> st3 = st2
          \<and> count_list (tool_keys (emitted st4)) key = 1
          \<and> distinct (tool_keys (emitted st4))
          \<and> distinct (tool_keys (emitted (run parse chunks)))"
proof -
  define st0 where "st0 = feed parse before init"
  define st1 where "st1 = snd (processToolMessage parse st0 body1 isEnd)"
  define st2 where "st2 = feed parse between st1"
  define st3 where "st3 = snd (processToolMessage parse st2 body2 isEnd')"
  define st4 where "st4 = on_end parse (feed parse after st3)"
  have "dedup_inv st0"
    unfolding st0_def by (rule dedup_inv_feed) (rule dedup_inv_init)
  then have r1: "recorded key st1"
    unfolding st1_def using assms(1) by (rule recorded_processToolMessage)
  then have r2: "recorded key st2"
    unfolding st2_def by (rule recorded_feed)
  then have "key \<in> processedTools st2" by (simp add: recorded_def)
  from processToolMessage_seen [OF assms(2) this, of isEnd'] have e: "st3 = st2"
    by (simp add: st3_def)
  with r2 have "recorded key (feed parse after st3)" by (simp add: recorded_feed)
  then have r4: "recorded key st4"
    unfolding st4_def by (rule recorded_on_end)
  from r1 have c1: "count_list (tool_keys (emitted st1)) key = 1"
    by (simp add: recorded_def dedup_inv_count)
  from r4 have c4: "count_list (tool_keys (emitted st4)) key = 1"
    by (simp add: recorded_def dedup_inv_count)
  from r4 have d4: "distinct (tool_keys (emitted st4))"
    by (simp add: recorded_def dedup_inv_def)
  have "dedup_inv (run parse chunks)"
    unfolding run_def by (intro dedup_inv_on_end dedup_inv_feed dedup_inv_init)
  then have dr: "distinct (tool_keys (emitted (run parse chunks)))"
    by (simp add: dedup_inv_def)
  from c1 e c4 d4 dr show ?thesis
    by (simp add: Let_def st0_def st1_def st2_def st3_def st4_def)
qed

text \<open>Two frame bodies of the upstream format, used by the closed examples.\<close>

definition example_tool_body :: string where
  "example_tool_body = ''{\"tool_name\":\"search\",\"additional_kwargs\":{}}''"

definition example_toly_body :: string where
  "example_toly_body =
     ''{\"event\":\"on_chat_model_stream\",\"metadata\":{\"langgraph_node\":\"Toly\"},''
     @ ''\"data\":{\"chunk\":{\"content\":\"Hi\"}}}''"

theorem dedup_idempotence_witness:
  "tool_notice_key JSON_parse example_tool_body = Some ''search-{}''
   \<and> tool_notice_key JSON_parse ('' '' @ example_tool_body @ '' '') = Some ''search-{}''
   \<and> (let st0 = feed JSON_parse [''Toly :'' @ example_toly_body, ''Toly :''] init;
            st1 = snd (processToolMessage JSON_parse st0 example_tool_body False);
            st2 = feed JSON_parse [''Tool :{\"tool_name\":\"fetch\"}Tool :''] st1;
            st3 = snd (processToolMessage JSON_parse st2 ('' '' @ example_tool_body @ '' '') True);
            st4 = on_end JSON_parse (feed JSON_parse [''Tool :'' @ example_tool_body] st3)
        in count_list (tool_keys (emitted st1)) ''search-{}'' = 1
         \<and> st3 = st2
         \<and> count_list (tool_keys (emitted st4)) ''search-{}'' = 1
         \<and> distinct (tool_keys (emitted st4))
         \<and> distinct (tool_keys (emitted (run JSON_parse
               [''Tool :'' @ example_tool_body @ ''Tool :'', example_tool_body @ ''Tool :'']))))"
proof -
  have h1: "tool_notice_key JSON_parse example_tool_body = Some ''search-{}''"
    by code_simp
  have h2: "tool_notice_key JSON_parse ('' '' @ example_tool_body @ '' '') = Some ''search-{}''"
    by code_simp
  note c = dedup_idempotence [OF h1 h2,
      where before = "[''Toly :'' @ example_toly_body, ''Toly :'']"
        and isEnd = False
        and between = "[''Tool :{\"tool_name\":\"fetch\"}Tool :'']"
        and isEnd' = True
        and after = "[''Tool :'' @ example_tool_body]"
        and chunks = "[''Tool :'' @ example_tool_body @ ''Tool :'', example_tool_body @ ''Tool :'']"]
  from h1 h2 c show ?thesis by (iprover intro: conjI)
qed

section \<open>The order of the two passes\<close>



text \<open>What was emitted between an earlier state and a later one of the same session.\<close>

definition new_events :: "session \<Rightarrow> session \<Rightarrow> event list" where
  "new_events st st' = drop (length (emitted st)) (emitted st')"












section \<open>Independence of the history\<close>

text \<open>The subscriber's and the logger's histories are written, never read. \<open>rebase\<close> puts a
  session on top of another history.\<close>

definition rebase :: "event list \<Rightarrow> log_entry list \<Rightarrow> bool \<Rightarrow> session \<Rightarrow> session" where
  "rebase evs lg c st =
     st\<lparr>emitted := evs @ emitted st, logged := lg @ logged st, completed := c \<or> completed st\<rparr>"

definition clear_history :: "session \<Rightarrow> session" where
  "clear_history st = st\<lparr>emitted := [], logged := [], completed := False\<rparr>"

text \<open>The variables of the session proper: the buffer, the dedup set and the transcript.\<close>

definition session_core :: "session \<Rightarrow> string \<times> string set \<times> string" where
  "session_core st = (rawBuffer st, processedTools st, streamedContent st)"

lemma rebase_clear_history: "rebase (emitted st) (logged st) (completed st) (clear_history st) = st"
  by (simp add: rebase_def clear_history_def)

lemma clear_history_core:
  "session_core a = session_core b \<Longrightarrow> clear_history a = clear_history b"
  by (simp add: session_core_def clear_history_def)

lemma rebase_rawBuffer: "rawBuffer (rebase evs lg c st) = rawBuffer st"
  by (simp add: rebase_def)

lemma rebase_buffer_update:
  "(rebase evs lg c st)\<lparr>rawBuffer := b\<rparr> = rebase evs lg c (st\<lparr>rawBuffer := b\<rparr>)"
  by (simp add: rebase_def)

lemma processToolMessage_rebase:
  "processToolMessage parse (rebase evs lg c st) content isEnd =
     (fst (processToolMessage parse st content isEnd),
      rebase evs lg c (snd (processToolMessage parse st content isEnd)))"
  by (simp add: processToolMessage_def processToolMessage_try_def Let_def rebase_def
           split: option.splits sum.splits)

lemma processTolyMessage_rebase:
  "processTolyMessage parse (rebase evs lg c st) content isEnd =
     (fst (processTolyMessage parse st content isEnd),
      rebase evs lg c (snd (processTolyMessage parse st content isEnd)))"
  by (simp add: processTolyMessage_def processTolyMessage_try_def Let_def rebase_def
           split: option.splits sum.splits)

lemma processor_rebase:
  "processor k parse (rebase evs lg c st) content isEnd =
     (fst (processor k parse st content isEnd),
      rebase evs lg c (snd (processor k parse st content isEnd)))"
  by (cases k) (simp_all add: processToolMessage_rebase processTolyMessage_rebase)

lemma round_rebase:
  "round parse k isEnd (rebase evs lg c st) = map_option (rebase evs lg c) (round parse k isEnd st)"
  by (simp add: round_def Let_def rebase_rawBuffer processor_rebase rebase_buffer_update
           split: option.splits)

lemma processMessages_rebase:
  "processMessages parse k isEnd (rebase evs lg c st)
     = rebase evs lg c (processMessages parse k isEnd st)"
proof (induction st rule: processMessages_induct [where parse = parse and k = k and isEnd = isEnd])
  case (round st)
  show ?case
  proof (cases "round parse k isEnd st")
    case None
    then show ?thesis
      by (simp add: processMessages_unfold [of parse k isEnd st]
            processMessages_unfold [of parse k isEnd "rebase evs lg c st"] round_rebase)
  next
    case (Some st')
    with round.IH [OF Some] show ?thesis
      by (simp add: processMessages_unfold [of parse k isEnd st]
            processMessages_unfold [of parse k isEnd "rebase evs lg c st"] round_rebase)
  qed
qed

lemma processBufferedData_rebase:
  "processBufferedData parse isEnd (rebase evs lg c st)
     = rebase evs lg c (processBufferedData parse isEnd st)"
  by (simp add: processBufferedData_def processMessages_rebase)

lemma on_data_rebase:
  "on_data parse chunk (rebase evs lg c st) = rebase evs lg c (on_data parse chunk st)"
proof -
  have "(rebase evs lg c st)\<lparr>logged := logged (rebase evs lg c st) @ [RawChunk chunk],
                              rawBuffer := rawBuffer (rebase evs lg c st) @ chunk\<rparr>
          = rebase evs lg c (st\<lparr>logged := logged st @ [RawChunk chunk],
                                 rawBuffer := rawBuffer st @ chunk\<rparr>)"
    by (simp add: rebase_def)
  then show ?thesis by (simp add: on_data_def processBufferedData_rebase)
qed

lemma feed_rebase:
  "feed parse chunks (rebase evs lg c st) = rebase evs lg c (feed parse chunks st)"
  by (induction chunks arbitrary: st) (simp_all add: feed_Nil feed_Cons on_data_rebase)

lemma on_end_rebase:
  "on_end parse (rebase evs lg c st) = rebase evs lg c (on_end parse st)"
  by (simp add: on_end_def Let_def processBufferedData_rebase) (simp add: rebase_def)

lemma new_events_rebase: "new_events st (rebase (emitted st) lg c s) = emitted s"
  by (simp add: new_events_def rebase_def)

text \<open>
  C10. For every fixed sequence of chunks followed by end-of-stream, the demultiplexer is
  deterministic, with no dependence on timing, randomness, or state outside the session.
  The model is a function of the decoder, the chunks and the starting state, and a session
  starts from \<open>init\<close>, so two runs over the same chunks are equal. What is left to prove is
  that nothing outside the session's three variables is read: two sessions that agree on
  the buffer, the dedup set and the transcript, whatever was emitted and logged before,
  emit identical event sequences over the same chunks and the end of the stream, and end
  with identical transcripts.
\<close>

theorem run_deterministic:
  assumes "session_core a = session_core b"
  shows "new_events a (on_end parse (feed parse chunks a))
           = new_events b (on_end parse (feed parse chunks b))
       \<and> streamedContent (on_end parse (feed parse chunks a))
           = streamedContent (on_end parse (feed parse chunks b))
       \<and> session_core (on_end parse (feed parse chunks a))
           = session_core (on_end parse (feed parse chunks b))"
proof -
  define final where "final = on_end parse (feed parse chunks (clear_history a))"
  have fa: "on_end parse (feed parse chunks a) = rebase (emitted a) (logged a) (completed a) final"
  proof -
    have "on_end parse (feed parse chunks (rebase (emitted a) (logged a) (completed a) (clear_history a)))
            = rebase (emitted a) (logged a) (completed a) final"
      by (simp only: feed_rebase on_end_rebase final_def)
    then show ?thesis by (simp only: rebase_clear_history)
  qed
  have fb: "on_end parse (feed parse chunks b) = rebase (emitted b) (logged b) (completed b) final"
  proof -
    have "on_end parse (feed parse chunks (rebase (emitted b) (logged b) (completed b) (clear_history b)))
            = rebase (emitted b) (logged b) (completed b) final"
      by (simp only: feed_rebase on_end_rebase final_def clear_history_core [OF assms])
    then show ?thesis by (simp only: rebase_clear_history)
  qed
  show ?thesis
    unfolding fa fb by (simp add: new_events_rebase) (simp add: rebase_def session_core_def)
qed

theorem run_deterministic_witness:
  "session_core init
     = session_core (init\<lparr>emitted := [ContentEvent ''earlier''], logged := [RawChunk ''x''],
                           completed := True\<rparr>)
   \<and> new_events init (on_end JSON_parse (feed JSON_parse
         [''Tool :'' @ example_tool_body @ ''Toly'', '' :'' @ example_toly_body] init))
       = new_events (init\<lparr>emitted := [ContentEvent ''earlier''], logged := [RawChunk ''x''],
                           completed := True\<rparr>)
           (on_end JSON_parse (feed JSON_parse
             [''Tool :'' @ example_tool_body @ ''Toly'', '' :'' @ example_toly_body]
             (init\<lparr>emitted := [ContentEvent ''earlier''], logged := [RawChunk ''x''],
                    completed := True\<rparr>)))"
proof -
  have h: "session_core init
     = session_core (init\<lparr>emitted := [ContentEvent ''earlier''], logged := [RawChunk ''x''],
                           completed := True\<rparr>)"
    by (simp add: session_core_def init_def)
  from run_deterministic [OF h, of JSON_parse
      "[''Tool :'' @ example_tool_body @ ''Toly'', '' :'' @ example_toly_body]"] h
  show ?thesis by blast
qed

section \<open>The tag scanner\<close>

text \<open>A tag literal, of either kind, starts at offset \<open>pos\<close> of the buffer.\<close>

definition tag_at :: "string \<Rightarrow> nat \<Rightarrow> bool" where
  "tag_at buf pos \<longleftrightarrow>
     prefix (MESSAGE_TYPES TOOL) (drop pos buf) \<or> prefix (MESSAGE_TYPES TOLY) (drop pos buf)"

text \<open>The scanner as the specification words it: the first tag at an offset strictly
  after \<open>from_offset + tag_length\<close>.\<close>

definition scan_strictly_after :: "string \<Rightarrow> nat \<Rightarrow> nat option" where
  "scan_strictly_after buf from_offset =
     find (tag_at buf) [Suc (from_offset + IDENTIFIER_LENGTH) ..< length buf]"

lemma find_map_shift: "find P (map f xs) = map_option f (find (\<lambda>x. P (f x)) xs)"
  by (induction xs) simp_all

lemma find_at_find:
  assumes "needle \<noteq> []"
  shows "find_at needle xs i
           = map_option (\<lambda>j. j + i) (find (\<lambda>j. prefix needle (drop j xs)) [0..<length xs])"
proof (induction xs arbitrary: i)
  case Nil
  with assms show ?case by simp
next
  case (Cons c cs)
  have "[0..<Suc (length cs)] = 0 # [Suc 0..<Suc (length cs)]"
    by (rule upt_conv_Cons) simp
  also have "[Suc 0..<Suc (length cs)] = map Suc [0..<length cs]"
    by (rule map_Suc_upt [symmetric])
  finally have u: "[0..<length (c # cs)] = 0 # map Suc [0..<length cs]"
    by (simp only: length_Cons)
  show ?case
  proof (cases "prefix needle (c # cs)")
    case True
    then show ?thesis by (simp only: u) simp
  next
    case False
    have "find (\<lambda>j. prefix needle (drop j (c # cs))) [0..<length (c # cs)]
            = map_option Suc (find (\<lambda>j. prefix needle (drop j cs)) [0..<length cs])"
      using False by (simp only: u) (simp add: find_map_shift)
    with False Cons.IH [of "Suc i"] show ?thesis
      by (simp add: option.map_comp comp_def)
  qed
qed

lemma indexOf_find:
  assumes "needle \<noteq> []"
  shows "indexOf s needle from = find (\<lambda>j. prefix needle (drop j s)) [from..<length s]"
proof (cases "from \<le> length s")
  case True
  then have m: "min from (length s) = from" by simp
  have l: "[from..<length s] = map (\<lambda>j. j + from) [0..<length s - from]"
    using True by (simp add: map_add_upt)
  have "indexOf s needle from
          = map_option (\<lambda>j. j + from)
              (find (\<lambda>j. prefix needle (drop j (drop from s))) [0..<length (drop from s)])"
    by (simp only: indexOf_def m find_at_find [OF assms])
  also have "\<dots> = find (\<lambda>j. prefix needle (drop j s)) (map (\<lambda>j. j + from) [0..<length s - from])"
    by (simp add: find_map_shift)
  finally show ?thesis by (simp only: l)
next
  case False
  with assms show ?thesis by (simp add: indexOf_def)
qed

lemma find_either:
  assumes "sorted_wrt (<) (xs :: nat list)"
  shows "find (\<lambda>j. P j \<or> Q j) xs =
           (case find P xs of
              None \<Rightarrow> find Q xs
            | Some a \<Rightarrow> (case find Q xs of
                          None \<Rightarrow> Some a
                        | Some b \<Rightarrow> if b < a then Some b else Some a))"
  using assms
proof (induction xs)
  case Nil
  then show ?case by simp
next
  case (Cons x xs)
  from Cons.prems have s: "sorted_wrt (<) xs" and g: "\<And>y. y \<in> set xs \<Longrightarrow> x < y"
    by simp_all
  have fp: "\<And>y. find P xs = Some y \<Longrightarrow> x < y"
    using g by (auto simp: find_Some_iff)
  have fq: "\<And>y. find Q xs = Some y \<Longrightarrow> x < y"
    using g by (auto simp: find_Some_iff)
  show ?case
  proof (cases "P x")
    case True
    note px = this
    show ?thesis
    proof (cases "Q x")
      case True
      with px show ?thesis by simp
    next
      case False
      with px show ?thesis
        by (cases "find Q xs") (auto dest: fq)
    qed
  next
    case False
    note npx = this
    show ?thesis
    proof (cases "Q x")
      case True
      with npx show ?thesis
        by (cases "find P xs") (auto dest: fp)
    next
      case False
      with npx Cons.IH [OF s] show ?thesis by (simp split: option.splits)
    qed
  qed
qed

lemma findNextMessageStart_find:
  "findNextMessageStart buf p = find (tag_at buf) [p + IDENTIFIER_LENGTH ..< length buf]"
proof -
  have t: "tag_at buf = (\<lambda>j. prefix ''Tool :'' (drop j buf) \<or> prefix ''Toly :'' (drop j buf))"
    by (rule ext) (simp add: tag_at_def)
  have a: "indexOf buf ''Tool :'' (p + 6)
             = find (\<lambda>j. prefix ''Tool :'' (drop j buf)) [p + 6..<length buf]"
    by (rule indexOf_find) simp
  have b: "indexOf buf ''Toly :'' (p + 6)
             = find (\<lambda>j. prefix ''Toly :'' (drop j buf)) [p + 6..<length buf]"
    by (rule indexOf_find) simp
  have s: "sorted_wrt (<) [p + 6..<length buf]" by simp
  show ?thesis
    unfolding t IDENTIFIER_LENGTH_def findNextMessageStart_cases a b
    by (rule find_either [OF s, symmetric])
qed

text \<open>
  C8, as amended. For every buffer and every offset \<open>p\<close> of a just-consumed tag, the tag
  scanner returns the occurrence, of either of the two fixed 6-byte tag literals, with the
  smallest offset at or after \<open>p + tag_length\<close> (the earliest when both literals occur),
  and a not-found result when neither literal occurs from there on; it is a function of
  the buffer and the offset and changes neither.
\<close>

theorem findNextMessageStart_first_tag:
  "findNextMessageStart buf p = find (tag_at buf) [p + IDENTIFIER_LENGTH ..< length buf]"
  by (rule findNextMessageStart_find)

text \<open>
  C8 as stated, with "strictly after \<open>p + tag_length\<close>", fails: in the buffer
  \<open>Tool :Toly :\<close> the tag at offset 0 has been consumed, the next tag starts at offset
  \<open>6 = 0 + tag_length\<close>, and the scanner returns it, where a scan strictly after offset 6
  finds nothing.
\<close>

theorem findNextMessageStart_strictly_after_counterexample:
  "findNextMessageStart ''Tool :Toly :'' 0 = Some 6
   \<and> scan_strictly_after ''Tool :Toly :'' 0 = None
   \<and> \<not> (0 + IDENTIFIER_LENGTH < (6 :: nat))"
  by code_simp

section \<open>The end of the stream\<close>

lemma indexOf_None_drop:
  assumes "indexOf s needle 0 = None" and "needle \<noteq> []"
  shows "indexOf (drop n s) needle 0 = None"
proof -
  from assms have a: "\<And>j. j < length s \<Longrightarrow> \<not> prefix needle (drop j s)"
    by (simp add: indexOf_find find_None_iff)
  have "\<And>j. j < length s - n \<Longrightarrow> \<not> prefix needle (drop j (drop n s))"
  proof -
    fix j assume "j < length s - n"
    then have "j + n < length s" by arith
    from a [OF this] show "\<not> prefix needle (drop j (drop n s))" by simp
  qed
  with assms(2) show ?thesis
    by (simp add: indexOf_find find_None_iff)
qed

lemma round_end_None:
  assumes "round parse k True st = None"
  shows "indexOf (rawBuffer st) (MESSAGE_TYPES k) 0 = None"
proof (rule ccontr)
  assume "indexOf (rawBuffer st) (MESSAGE_TYPES k) 0 \<noteq> None"
  then obtain msgStart where m: "indexOf (rawBuffer st) (MESSAGE_TYPES k) 0 = Some msgStart"
    by blast
  define c where "c = fst (extractMessageContent (rawBuffer st) msgStart)"
  from processor_refused [of k parse st c True] have "fst (processor k parse st c True)"
    by blast
  with m assms show False
    by (simp add: round_def Let_def c_def)
qed

lemma round_suffix:
  assumes "round parse k isEnd st = Some st'"
  shows "\<exists>n. rawBuffer st' = drop n (rawBuffer st)"
proof -
  from assms obtain msgStart where "rawBuffer st' = rest_buffer (rawBuffer st) msgStart"
    by (auto simp: round_def Let_def split: option.splits if_splits)
  moreover have "\<exists>n. rest_buffer (rawBuffer st) msgStart = drop n (rawBuffer st)"
  proof (cases "findNextMessageStart (rawBuffer st) msgStart")
    case None
    then have "rest_buffer (rawBuffer st) msgStart = drop (length (rawBuffer st)) (rawBuffer st)"
      by (simp add: rest_buffer_def)
    then show ?thesis by blast
  next
    case (Some q)
    then have "rest_buffer (rawBuffer st) msgStart = drop q (rawBuffer st)"
      by (simp add: rest_buffer_def substring_from_def)
    then show ?thesis by blast
  qed
  ultimately show ?thesis by simp
qed

lemma processMessages_suffix:
  "\<exists>n. rawBuffer (processMessages parse k isEnd st) = drop n (rawBuffer st)"
proof (induction st rule: processMessages_induct [where parse = parse and k = k and isEnd = isEnd])
  case (round st)
  show ?case
  proof (cases "round parse k isEnd st")
    case None
    then have "rawBuffer (processMessages parse k isEnd st) = drop 0 (rawBuffer st)"
      by (simp add: processMessages_unfold [of parse k isEnd st])
    then show ?thesis by blast
  next
    case (Some st')
    from round_suffix [OF Some] obtain n where n: "rawBuffer st' = drop n (rawBuffer st)" ..
    from round.IH [OF Some] obtain m
      where "rawBuffer (processMessages parse k isEnd st') = drop m (rawBuffer st')" ..
    with n Some have "rawBuffer (processMessages parse k isEnd st) = drop (m + n) (rawBuffer st)"
      by (simp add: processMessages_unfold [of parse k isEnd st])
    then show ?thesis by blast
  qed
qed

lemma processMessages_end_no_tag:
  "indexOf (rawBuffer (processMessages parse k True st)) (MESSAGE_TYPES k) 0 = None"
proof (induction st rule: processMessages_induct [where parse = parse and k = k and isEnd = True])
  case (round st)
  show ?case
  proof (cases "round parse k True st")
    case None
    with round_end_None [OF None] show ?thesis
      by (simp add: processMessages_unfold [of parse k True st])
  next
    case (Some st')
    with round.IH [OF Some] show ?thesis
      by (simp add: processMessages_unfold [of parse k True st])
  qed
qed

lemma processBufferedData_end_no_tag:
  "indexOf (rawBuffer (processBufferedData parse True st)) (MESSAGE_TYPES k) 0 = None"
proof (cases k)
  case TOLY
  then show ?thesis
    unfolding processBufferedData_def by (simp only: processMessages_end_no_tag)
next
  case TOOL
  define st1 where "st1 = processMessages parse TOOL True st"
  have a: "indexOf (rawBuffer st1) (MESSAGE_TYPES TOOL) 0 = None"
    unfolding st1_def by (rule processMessages_end_no_tag)
  from processMessages_suffix [of parse TOLY True st1]
  obtain n where "rawBuffer (processMessages parse TOLY True st1) = drop n (rawBuffer st1)" ..
  with indexOf_None_drop [OF a, of n] TOOL show ?thesis
    by (simp add: processBufferedData_def st1_def)
qed

text \<open>The \<open>try\<close> block of the processor of a message type, and what its \<open>catch\<close> logs at the
  end of the stream.\<close>

fun processor_try ::
  "message_type \<Rightarrow> (string \<Rightarrow> json option) \<Rightarrow> session \<Rightarrow> string \<Rightarrow> exn + session" where
  "processor_try TOOL = processToolMessage_try"
| "processor_try TOLY = processTolyMessage_try"

fun parse_failure_entry :: "message_type \<Rightarrow> string \<Rightarrow> log_entry" where
  "parse_failure_entry TOOL content = ToolParseFailedAtEnd"
| "parse_failure_entry TOLY content = TolyParseFailedAtEnd content"

lemma processor_end_failure:
  assumes "isl (processor_try k parse st content)"
  shows "processor k parse st content True =
           (True, st\<lparr>logged := logged st @ [parse_failure_entry k content]\<rparr>)"
  using assms
  by (cases k) (auto simp: processToolMessage_def processTolyMessage_def split: sum.splits)

lemma processMessages_no_tag:
  assumes "indexOf (rawBuffer st) (MESSAGE_TYPES k) 0 = None"
  shows "processMessages parse k isEnd st = st"
  using assms by (simp add: processMessages_unfold [of parse k isEnd st] round_def)

lemma indexOf_empty_buffer: "indexOf [] (MESSAGE_TYPES k) 0 = None"
  by (cases k) (simp_all add: indexOf_def)

lemma processMessages_trailing_frame:
  assumes m: "indexOf (rawBuffer st) (MESSAGE_TYPES k) 0 = Some msgStart"
    and n: "findNextMessageStart (rawBuffer st) msgStart = None"
  shows "processMessages parse k True st =
           (snd (processor k parse st
                   (substring_from (rawBuffer st) (msgStart + IDENTIFIER_LENGTH)) True))
             \<lparr>rawBuffer := []\<rparr>"
proof -
  define c where "c = substring_from (rawBuffer st) (msgStart + IDENTIFIER_LENGTH)"
  define st' where "st' = (snd (processor k parse st c True))\<lparr>rawBuffer := []\<rparr>"
  have e: "fst (extractMessageContent (rawBuffer st) msgStart) = c"
    using n by (simp add: extractMessageContent_def Let_def c_def)
  from processor_refused [of k parse st c True] have ok: "fst (processor k parse st c True)"
    by blast
  have r: "round parse k True st = Some st'"
    using m n ok by (simp add: round_def Let_def e rest_buffer_def st'_def)
  have "indexOf (rawBuffer st') (MESSAGE_TYPES k) 0 = None"
    by (simp add: st'_def indexOf_empty_buffer)
  then have "processMessages parse k True st' = st'"
    by (rule processMessages_no_tag)
  with r show ?thesis
    by (simp add: processMessages_unfold [of parse k True st] st'_def c_def)
qed

lemma processMessages_end_unfold:
  "processMessages parse k True s =
     (case indexOf (rawBuffer s) (MESSAGE_TYPES k) 0 of
        None \<Rightarrow> s
      | Some m \<Rightarrow>
          processMessages parse k True
            ((snd (processor k parse s (fst (extractMessageContent (rawBuffer s) m)) True))
               \<lparr>rawBuffer := rest_buffer (rawBuffer s) m\<rparr>))"
proof (cases "indexOf (rawBuffer s) (MESSAGE_TYPES k) 0")
  case None
  then show ?thesis by (simp add: processMessages_no_tag)
next
  case (Some m)
  define c where "c = fst (extractMessageContent (rawBuffer s) m)"
  from processor_refused [of k parse s c True] have "fst (processor k parse s c True)"
    by blast
  with Some have "round parse k True s =
      Some ((snd (processor k parse s c True))\<lparr>rawBuffer := rest_buffer (rawBuffer s) m\<rparr>)"
    by (simp add: round_def Let_def c_def)
  with Some show ?thesis
    by (simp add: processMessages_unfold [of parse k True s] c_def)
qed

section \<open>The trailing frame\<close>

lemma tag_prefix_chars:
  assumes "prefix (MESSAGE_TYPES k) (drop a buf)"
  shows "a + 6 \<le> length buf \<and> buf ! a = CHR ''T''
       \<and> (\<forall>i. 0 < i \<and> i < 6 \<longrightarrow> buf ! (a + i) \<noteq> CHR ''T'')"
proof -
  from assms obtain zs where z: "drop a buf = MESSAGE_TYPES k @ zs"
    by (auto simp: prefix_def)
  have l: "length (MESSAGE_TYPES k) = 6" by (cases k) simp_all
  from z have "length (drop a buf) = 6 + length zs" by (simp add: l)
  then have len: "a + 6 \<le> length buf" by simp
  have nth: "\<And>i. i < 6 \<Longrightarrow> buf ! (a + i) = MESSAGE_TYPES k ! i"
  proof -
    fix i :: nat assume i: "i < 6"
    with len have "buf ! (a + i) = drop a buf ! i" by simp
    also have "\<dots> = MESSAGE_TYPES k ! i" using i by (simp add: z l nth_append)
    finally show "buf ! (a + i) = MESSAGE_TYPES k ! i" .
  qed
  have first: "buf ! a = CHR ''T''"
    using nth [of 0] by (cases k) simp_all
  have rest: "\<forall>i. 0 < i \<and> i < 6 \<longrightarrow> buf ! (a + i) \<noteq> CHR ''T''"
  proof (intro allI impI)
    fix i :: nat assume "0 < i \<and> i < 6"
    then have "i = 1 \<or> i = 2 \<or> i = 3 \<or> i = 4 \<or> i = 5" by arith
    then have "MESSAGE_TYPES k ! i \<noteq> CHR ''T''"
      by (cases k) auto
    with nth [of i] \<open>0 < i \<and> i < 6\<close> show "buf ! (a + i) \<noteq> CHR ''T''" by simp
  qed
  from len first rest show ?thesis by blast
qed

text \<open>Two tags do not overlap, and one offset holds one tag.\<close>

lemma tags_apart:
  assumes "prefix (MESSAGE_TYPES k) (drop a buf)" and "prefix (MESSAGE_TYPES k') (drop b buf)"
    and "a < b"
  shows "a + 6 \<le> b"
proof (rule ccontr)
  assume "\<not> a + 6 \<le> b"
  with assms(3) have i: "0 < b - a \<and> b - a < 6" by arith
  from tag_prefix_chars [OF assms(1)] i have "buf ! (a + (b - a)) \<noteq> CHR ''T''" by blast
  moreover from assms(3) have "a + (b - a) = b" by arith
  moreover from tag_prefix_chars [OF assms(2)] have "buf ! b = CHR ''T''" by blast
  ultimately show False by simp
qed

lemma tag_kind_unique:
  assumes "prefix (MESSAGE_TYPES k) (drop a buf)" and "prefix (MESSAGE_TYPES k') (drop a buf)"
  shows "k = k'"
proof -
  from assms(1) obtain zs where z: "drop a buf = MESSAGE_TYPES k @ zs"
    by (auto simp: prefix_def)
  from assms(2) obtain zs' where z': "drop a buf = MESSAGE_TYPES k' @ zs'"
    by (auto simp: prefix_def)
  from z z' have "MESSAGE_TYPES k @ zs = MESSAGE_TYPES k' @ zs'" by simp
  then show ?thesis by (cases k; cases k') simp_all
qed

lemma tag_at_kind: "tag_at buf a \<longleftrightarrow> (\<exists>k. prefix (MESSAGE_TYPES k) (drop a buf))"
proof
  assume "tag_at buf a"
  then show "\<exists>k. prefix (MESSAGE_TYPES k) (drop a buf)"
    unfolding tag_at_def by blast
next
  assume "\<exists>k. prefix (MESSAGE_TYPES k) (drop a buf)"
  then obtain k where "prefix (MESSAGE_TYPES k) (drop a buf)" ..
  then show "tag_at buf a"
    unfolding tag_at_def by (cases k) simp_all
qed

text \<open>The position \<open>q\<close> holds the last tag of the buffer.\<close>

lemma no_tag_behind:
  assumes "prefix (MESSAGE_TYPES k) (drop q buf)" and "findNextMessageStart buf q = None"
    and "tag_at buf b"
  shows "b \<le> q"
proof (rule ccontr)
  assume "\<not> b \<le> q"
  then have qb: "q < b" by simp
  from assms(3) obtain k' where t: "prefix (MESSAGE_TYPES k') (drop b buf)"
    by (auto simp: tag_at_kind)
  from tags_apart [OF assms(1) t qb] have f: "q + 6 \<le> b" .
  from tag_prefix_chars [OF t] have "b < length buf" by simp
  with f have "b \<in> set [q + IDENTIFIER_LENGTH ..< length buf]"
    by (simp add: IDENTIFIER_LENGTH_def)
  with assms(2) assms(3) show False
    by (simp add: findNextMessageStart_find find_None_iff)
qed

lemma indexOf_tag_at:
  assumes "indexOf s (MESSAGE_TYPES k) 0 = Some m"
  shows "prefix (MESSAGE_TYPES k) (drop m s)"
  using indexOf_Some [OF assms] by simp

lemma indexOf_finds:
  assumes "prefix (MESSAGE_TYPES k) (drop a s)"
  shows "indexOf s (MESSAGE_TYPES k) 0 \<noteq> None"
proof -
  have n: "MESSAGE_TYPES k \<noteq> []" by (cases k) simp_all
  from tag_prefix_chars [OF assms] have "a < length s" by simp
  then have "a \<in> set [0..<length s]" by simp
  with assms show ?thesis
    by (auto simp: indexOf_find [OF n] find_None_iff)
qed

lemma map_add_upt_shift: "map (\<lambda>i. i + j) [a..<b] = [a + j..<b + j]"
  by (induction b) simp_all

lemma findNextMessageStart_drop:
  "findNextMessageStart (drop j buf) m = map_option (\<lambda>n. n - j) (findNextMessageStart buf (m + j))"
proof -
  have t: "tag_at (drop j buf) = (\<lambda>i. tag_at buf (i + j))"
    by (rule ext) (simp add: tag_at_def)
  show ?thesis
  proof (cases "j \<le> length buf")
    case True
    have l: "[m + j + IDENTIFIER_LENGTH ..< length buf]
               = map (\<lambda>i. i + j) [m + IDENTIFIER_LENGTH ..< length buf - j]"
    proof -
      have "map (\<lambda>i. i + j) [m + IDENTIFIER_LENGTH ..< length buf - j]
              = [m + IDENTIFIER_LENGTH + j ..< length buf - j + j]"
        by (rule map_add_upt_shift)
      with True show ?thesis by (simp add: add.commute add.left_commute)
    qed
    show ?thesis
      by (simp add: findNextMessageStart_find t l find_map_shift option.map_comp comp_def
            option.map_ident)
  next
    case False
    then show ?thesis by (simp add: findNextMessageStart_find)
  qed
qed

text \<open>A later state of the same session: what was emitted, logged, accumulated and
  recorded is still there.\<close>

definition extends :: "session \<Rightarrow> session \<Rightarrow> bool" where
  "extends a b \<longleftrightarrow>
     prefix (emitted a) (emitted b) \<and> prefix (logged a) (logged b)
     \<and> prefix (streamedContent a) (streamedContent b) \<and> processedTools a \<subseteq> processedTools b"

lemma extends_refl: "extends a a"
  by (simp add: extends_def)

lemma extends_trans: "extends a b \<Longrightarrow> extends b c \<Longrightarrow> extends a c"
  unfolding extends_def by (meson prefix_order.trans subset_trans)

lemma extends_buffer: "extends a b \<Longrightarrow> extends a (b\<lparr>rawBuffer := x\<rparr>)"
  by (simp add: extends_def)

lemma extends_processor: "extends s (snd (processor k parse s c isEnd))"
proof (cases k)
  case TOOL
  obtain ok s' where p: "processToolMessage parse s c isEnd = (ok, s')"
    by (cases "processToolMessage parse s c isEnd")
  from processToolMessage_cases [OF p] have "extends s s'"
    by (auto simp: extends_def)
  with p TOOL show ?thesis by simp
next
  case TOLY
  obtain ok s' where p: "processTolyMessage parse s c isEnd = (ok, s')"
    by (cases "processTolyMessage parse s c isEnd")
  from processTolyMessage_cases [OF p] have "extends s s'"
    by (auto simp: extends_def)
  with p TOLY show ?thesis by simp
qed

lemma extends_processMessages: "extends s (processMessages parse k isEnd s)"
proof (rule processMessages_preserves [where P = "extends s"])
  fix t c assume "extends s t"
  then show "extends s (snd (processor k parse t c isEnd))"
    using extends_processor [of t k parse c isEnd] by (rule extends_trans)
next
  fix t b assume "extends s t"
  then show "extends s (t\<lparr>rawBuffer := b\<rparr>)" by (rule extends_buffer)
next
  show "extends s s" by (rule extends_refl)
qed

lemma round_end_Some:
  assumes "indexOf (rawBuffer s) (MESSAGE_TYPES k) 0 = Some m"
  shows "round parse k True s =
           Some ((snd (processor k parse s (fst (extractMessageContent (rawBuffer s) m)) True))
                   \<lparr>rawBuffer := rest_buffer (rawBuffer s) m\<rparr>)"
proof -
  define c where "c = fst (extractMessageContent (rawBuffer s) m)"
  from processor_refused [of k parse s c True] have "fst (processor k parse s c True)"
    by blast
  with assms show ?thesis
    by (simp add: round_def Let_def c_def)
qed

lemma next_tag_before_last:
  assumes tag: "prefix (MESSAGE_TYPES k) (drop q buf)"
    and a: "tag_at buf a" and lt: "a < q"
  shows "\<exists>n. findNextMessageStart buf a = Some n \<and> a + 6 \<le> n \<and> n \<le> q"
proof -
  from a obtain k' where ta: "prefix (MESSAGE_TYPES k') (drop a buf)"
    by (auto simp: tag_at_kind)
  from tags_apart [OF ta tag lt] have far: "a + 6 \<le> q" .
  from tag_prefix_chars [OF tag] have ql: "q < length buf" by simp
  from tag have tq: "tag_at buf q" by (auto simp: tag_at_kind)
  let ?l = "[a + IDENTIFIER_LENGTH ..< length buf]"
  from far ql have "q \<in> set ?l" by (simp add: IDENTIFIER_LENGTH_def)
  with tq have "find (tag_at buf) ?l \<noteq> None" by (auto simp: find_None_iff)
  then obtain n where n: "find (tag_at buf) ?l = Some n" by blast
  then obtain i where i: "i < length ?l" and ni: "n = ?l ! i"
    and least: "\<forall>j<i. \<not> tag_at buf (?l ! j)"
    by (auto simp: find_Some_iff)
  from i ni have n6: "n = a + 6 + i" by (simp add: IDENTIFIER_LENGTH_def)
  have "n \<le> q"
  proof (rule ccontr)
    assume "\<not> n \<le> q"
    with n6 far have j: "q - (a + 6) < i" by arith
    with i have "?l ! (q - (a + 6)) = q"
      using far by (simp add: IDENTIFIER_LENGTH_def)
    with least j tq show False by auto
  qed
  with n n6 show ?thesis by (simp add: findNextMessageStart_find)
qed

lemma round_end_before_last:
  assumes tag: "prefix (MESSAGE_TYPES k) (drop q buf)"
    and buf: "rawBuffer s = drop j buf"
    and m: "indexOf (rawBuffer s) (MESSAGE_TYPES k') 0 = Some m"
    and lt: "m + j < q"
  shows "\<exists>s1 n. round parse k' True s = Some s1 \<and> rawBuffer s1 = drop n buf \<and> n \<le> q
           \<and> extends s s1"
proof -
  from indexOf_tag_at [OF m] buf have "prefix (MESSAGE_TYPES k') (drop (m + j) buf)"
    by simp
  then have ta: "tag_at buf (m + j)" by (auto simp: tag_at_kind)
  from next_tag_before_last [OF tag ta lt]
  obtain n where n: "findNextMessageStart buf (m + j) = Some n"
    and ge: "m + j + 6 \<le> n" and le: "n \<le> q" by blast
  from n have "findNextMessageStart (rawBuffer s) m = Some (n - j)"
    by (simp add: buf findNextMessageStart_drop)
  then have "rest_buffer (rawBuffer s) m = drop (n - j) (drop j buf)"
    by (simp add: rest_buffer_def substring_from_def buf)
  also from ge have "\<dots> = drop n buf" by simp
  finally have r: "rest_buffer (rawBuffer s) m = drop n buf" .
  define s1 where "s1 = (snd (processor k' parse s (fst (extractMessageContent (rawBuffer s) m)) True))
                          \<lparr>rawBuffer := rest_buffer (rawBuffer s) m\<rparr>"
  have "round parse k' True s = Some s1"
    unfolding s1_def by (rule round_end_Some [OF m])
  moreover have "rawBuffer s1 = drop n buf" by (simp add: s1_def r)
  moreover have "extends s s1"
    unfolding s1_def by (intro extends_buffer extends_processor)
  ultimately show ?thesis using le by blast
qed

text \<open>The final pass of the other message type does not reach the trailing frame.\<close>

lemma other_pass_keeps_trailing:
  assumes tag: "prefix (MESSAGE_TYPES k) (drop q buf)"
    and last: "findNextMessageStart buf q = None"
    and other: "k' \<noteq> k"
  shows "j \<le> q \<Longrightarrow> rawBuffer s = drop j buf \<Longrightarrow>
           \<exists>j'. j' \<le> q \<and> rawBuffer (processMessages parse k' True s) = drop j' buf"
proof (induction s arbitrary: j
         rule: processMessages_induct [where parse = parse and k = k' and isEnd = True])
  case (round s)
  show ?case
  proof (cases "indexOf (rawBuffer s) (MESSAGE_TYPES k') 0")
    case None
    then have "processMessages parse k' True s = s" by (rule processMessages_no_tag)
    with round.prems show ?thesis by auto
  next
    case (Some m)
    from indexOf_tag_at [OF Some] round.prems(2)
    have t: "prefix (MESSAGE_TYPES k') (drop (m + j) buf)" by simp
    then have "tag_at buf (m + j)" by (auto simp: tag_at_kind)
    from no_tag_behind [OF tag last this] have "m + j \<le> q" .
    moreover have "m + j \<noteq> q"
      using tag_kind_unique [of k' "m + j" buf k] t tag other by auto
    ultimately have lt: "m + j < q" by simp
    from round_end_before_last [OF tag round.prems(2) Some lt]
    obtain s1 n where r: "round parse k' True s = Some s1"
      and b: "rawBuffer s1 = drop n buf" and n: "n \<le> q" by blast
    from round.IH [OF r n b] r show ?thesis
      by (simp add: processMessages_unfold [of parse k' True s])
  qed
qed

text \<open>The final pass of its own message type ends with the trailing frame.\<close>

lemma own_pass_reaches_trailing:
  assumes tag: "prefix (MESSAGE_TYPES k) (drop q buf)"
    and last: "findNextMessageStart buf q = None"
  shows "j \<le> q \<Longrightarrow> rawBuffer s = drop j buf \<Longrightarrow>
           \<exists>s'. extends s s' \<and>
                processMessages parse k True s =
                  (snd (processor k parse s' (substring_from buf (q + IDENTIFIER_LENGTH)) True))
                    \<lparr>rawBuffer := []\<rparr>"
proof (induction s arbitrary: j
         rule: processMessages_induct [where parse = parse and k = k and isEnd = True])
  case (round s)
  from tag round.prems have "prefix (MESSAGE_TYPES k) (drop (q - j) (rawBuffer s))"
    by simp
  from indexOf_finds [OF this]
  obtain m where m: "indexOf (rawBuffer s) (MESSAGE_TYPES k) 0 = Some m" by blast
  from indexOf_tag_at [OF m] round.prems(2)
  have t: "prefix (MESSAGE_TYPES k) (drop (m + j) buf)" by simp
  then have "tag_at buf (m + j)" by (auto simp: tag_at_kind)
  from no_tag_behind [OF tag last this] have le: "m + j \<le> q" .
  show ?case
  proof (cases "m + j = q")
    case True
    with last have "findNextMessageStart (rawBuffer s) m = None"
      by (simp add: round.prems(2) findNextMessageStart_drop)
    from processMessages_trailing_frame [OF m this, of parse]
    have "processMessages parse k True s =
            (snd (processor k parse s (substring_from (rawBuffer s) (m + IDENTIFIER_LENGTH)) True))
              \<lparr>rawBuffer := []\<rparr>" .
    moreover have "substring_from (rawBuffer s) (m + IDENTIFIER_LENGTH)
                     = substring_from buf (q + IDENTIFIER_LENGTH)"
      using True by (simp add: substring_from_def round.prems(2) add.commute add.left_commute)
    ultimately show ?thesis using extends_refl [of s] by auto
  next
    case False
    with le have lt: "m + j < q" by simp
    from round_end_before_last [OF tag round.prems(2) m lt]
    obtain s1 n where r: "round parse k True s = Some s1"
      and b: "rawBuffer s1 = drop n buf" and n: "n \<le> q" and e: "extends s s1" by blast
    from round.IH [OF r n b]
    obtain s' where e': "extends s1 s'"
      and p: "processMessages parse k True s1 =
                (snd (processor k parse s' (substring_from buf (q + IDENTIFIER_LENGTH)) True))
                  \<lparr>rawBuffer := []\<rparr>" by blast
    from e e' have "extends s s'" by (rule extends_trans)
    with p r show ?thesis
      by (auto simp: processMessages_unfold [of parse k True s])
  qed
qed

lemma final_drain_reaches_trailing:
  assumes tag: "prefix (MESSAGE_TYPES k) (drop q (rawBuffer st))"
    and last: "findNextMessageStart (rawBuffer st) q = None"
  shows "\<exists>s. extends st s \<and>
              processBufferedData parse True st =
                (snd (processor k parse s
                        (substring_from (rawBuffer st) (q + IDENTIFIER_LENGTH)) True))
                  \<lparr>rawBuffer := []\<rparr>"
proof (cases k)
  case TOOL
  from own_pass_reaches_trailing [OF tag last, of 0 st parse]
  obtain s where e: "extends st s"
    and p: "processMessages parse k True st =
              (snd (processor k parse s
                      (substring_from (rawBuffer st) (q + IDENTIFIER_LENGTH)) True))
                \<lparr>rawBuffer := []\<rparr>" by auto
  define r where "r = (snd (processor k parse s
                      (substring_from (rawBuffer st) (q + IDENTIFIER_LENGTH)) True))
                \<lparr>rawBuffer := []\<rparr>"
  have "indexOf (rawBuffer r) (MESSAGE_TYPES TOLY) 0 = None"
    by (simp add: r_def indexOf_def)
  then have "processMessages parse TOLY True r = r" by (rule processMessages_no_tag)
  with p TOOL have "processBufferedData parse True st = r"
    by (simp add: processBufferedData_def r_def)
  with e show ?thesis unfolding r_def by blast
next
  case TOLY
  define st1 where "st1 = processMessages parse TOOL True st"
  have o: "TOOL \<noteq> k" using TOLY by simp
  from other_pass_keeps_trailing [OF tag last o, of 0 st parse]
  obtain j' where j': "j' \<le> q" and b: "rawBuffer st1 = drop j' (rawBuffer st)"
    by (auto simp: st1_def)
  have e1: "extends st st1"
    unfolding st1_def by (rule extends_processMessages)
  from own_pass_reaches_trailing [OF tag last j' b, of parse]
  obtain s where e: "extends st1 s"
    and p: "processMessages parse k True st1 =
              (snd (processor k parse s
                      (substring_from (rawBuffer st) (q + IDENTIFIER_LENGTH)) True))
                \<lparr>rawBuffer := []\<rparr>" by blast
  from e1 e have "extends st s" by (rule extends_trans)
  with p TOLY show ?thesis
    by (auto simp: processBufferedData_def st1_def)
qed


lemma processor_try_state:
  "isl (processor_try k parse s c) = isl (processor_try k parse s' c)"
  by (cases k)
     (auto simp: processToolMessage_try_def processTolyMessage_try_def Let_def
           split: option.splits sum.splits if_splits)

text \<open>A session at the end of its stream: a tool notice, then a model frame cut short.\<close>

definition flush_example :: session where
  "flush_example =
     init\<lparr>rawBuffer := ''Tool :'' @ example_tool_body @ ''Toly :{\"event\":\"on_ch'',
          streamedContent := ''Hi'', emitted := [DeltaEvent ''Hi'']\<rparr>"

text \<open>
  C6. Lenient flush. Let the session reach the end of the stream with a truncated trailing
  frame in its buffer: the last tag of the buffer, of type \<open>k\<close>, starts at offset \<open>q\<close> and no
  tag follows it. Then the end of the stream does not block. The final drain ends with one
  dispatch of that frame's body, with the final-flush flag set, from a later state \<open>s\<close> of
  the same session, after which the buffer is empty: the frame is dispatched once and
  nothing is kept for a retry. A body that still fails to decode is logged and dropped:
  the dispatch only appends the log entry, so the session emits its terminal content
  event after the events, and with the transcript, that it had accumulated. In every
  case the session emits the terminal content event with the accumulated transcript and
  completes. In every state the final pass has no deferring branch: it stops only when no
  tag of its type is left, and otherwise dispatches the frame at the front once and
  consumes it.
\<close>

theorem lenient_flush:
  assumes "prefix (MESSAGE_TYPES k) (drop q (rawBuffer st))"
    and "findNextMessageStart (rawBuffer st) q = None"
  shows "(\<exists>s. extends st s
            \<and> processBufferedData parse True st =
                (snd (processor k parse s
                        (substring_from (rawBuffer st) (q + IDENTIFIER_LENGTH)) True))
                  \<lparr>rawBuffer := []\<rparr>
            \<and> (isl (processor_try k parse st (substring_from (rawBuffer st) (q + IDENTIFIER_LENGTH)))
                 \<longrightarrow> processBufferedData parse True st =
                       s\<lparr>logged := logged s @
                              [parse_failure_entry k
                                 (substring_from (rawBuffer st) (q + IDENTIFIER_LENGTH))],
                          rawBuffer := []\<rparr>
                     \<and> emitted (on_end parse st) = emitted s @ [ContentEvent (streamedContent s)]))
       \<and> completed (on_end parse st)
       \<and> emitted (on_end parse st) =
           emitted (processBufferedData parse True st)
             @ [ContentEvent (streamedContent (processBufferedData parse True st))]
       \<and> rawBuffer (on_end parse st) = []
       \<and> (\<forall>s. processMessages parse k True s =
                (case indexOf (rawBuffer s) (MESSAGE_TYPES k) 0 of
                   None \<Rightarrow> s
                 | Some m \<Rightarrow>
                     processMessages parse k True
                       ((snd (processor k parse s (fst (extractMessageContent (rawBuffer s) m)) True))
                          \<lparr>rawBuffer := rest_buffer (rawBuffer s) m\<rparr>)))"
proof -
  define c where "c = substring_from (rawBuffer st) (q + IDENTIFIER_LENGTH)"
  from final_drain_reaches_trailing [OF assms, of parse]
  obtain s where e: "extends st s"
    and once: "processBufferedData parse True st =
                 (snd (processor k parse s c True))\<lparr>rawBuffer := []\<rparr>"
    unfolding c_def by blast
  have fail: "processBufferedData parse True st =
                s\<lparr>logged := logged s @ [parse_failure_entry k c], rawBuffer := []\<rparr>
              \<and> emitted (on_end parse st) = emitted s @ [ContentEvent (streamedContent s)]"
    if f: "isl (processor_try k parse st c)"
  proof -
    from f have "isl (processor_try k parse s c)"
      by (simp add: processor_try_state [of k parse st c s])
    from processor_end_failure [OF this] once
    have d: "processBufferedData parse True st =
               s\<lparr>logged := logged s @ [parse_failure_entry k c], rawBuffer := []\<rparr>"
      by simp
    then show ?thesis by (simp add: on_end_emitted)
  qed
  have fin: "completed (on_end parse st)"
    by (simp add: on_end_def Let_def)
  have empty: "rawBuffer (on_end parse st) = []"
    by (simp add: on_end_def Let_def once)
  have every: "\<forall>s. processMessages parse k True s =
                (case indexOf (rawBuffer s) (MESSAGE_TYPES k) 0 of
                   None \<Rightarrow> s
                 | Some m \<Rightarrow>
                     processMessages parse k True
                       ((snd (processor k parse s (fst (extractMessageContent (rawBuffer s) m)) True))
                          \<lparr>rawBuffer := rest_buffer (rawBuffer s) m\<rparr>))"
    by (rule allI) (rule processMessages_end_unfold)
  from e once fail have first: "\<exists>s. extends st s
            \<and> processBufferedData parse True st =
                (snd (processor k parse s c True))\<lparr>rawBuffer := []\<rparr>
            \<and> (isl (processor_try k parse st c)
                 \<longrightarrow> processBufferedData parse True st =
                       s\<lparr>logged := logged s @ [parse_failure_entry k c], rawBuffer := []\<rparr>
                     \<and> emitted (on_end parse st) = emitted s @ [ContentEvent (streamedContent s)])"
    by blast
  from first fin on_end_emitted [of parse st] empty every
  show ?thesis unfolding c_def by blast
qed

theorem lenient_flush_witness:
  "prefix (MESSAGE_TYPES TOLY) (drop 51 (rawBuffer flush_example))
   \<and> findNextMessageStart (rawBuffer flush_example) 51 = None
   \<and> isl (processor_try TOLY JSON_parse flush_example ''{\"event\":\"on_ch'')
   \<and> (\<exists>s. extends flush_example s
          \<and> emitted (on_end JSON_parse flush_example) = emitted s @ [ContentEvent (streamedContent s)])
   \<and> completed (on_end JSON_parse flush_example)
   \<and> rawBuffer (on_end JSON_parse flush_example) = []"
proof -
  have h1: "prefix (MESSAGE_TYPES TOLY) (drop 51 (rawBuffer flush_example))"
    by code_simp
  have h2: "findNextMessageStart (rawBuffer flush_example) 51 = None"
    by code_simp
  have c: "substring_from (rawBuffer flush_example) (51 + IDENTIFIER_LENGTH) = ''{\"event\":\"on_ch''"
    by code_simp
  have f: "isl (processor_try TOLY JSON_parse flush_example ''{\"event\":\"on_ch'')"
    by code_simp
  note flush = lenient_flush [OF h1 h2, of JSON_parse, unfolded c]
  from flush f
  have "\<exists>s. extends flush_example s
          \<and> emitted (on_end JSON_parse flush_example) = emitted s @ [ContentEvent (streamedContent s)]"
    by blast
  moreover from flush have "completed (on_end JSON_parse flush_example)"
    and "rawBuffer (on_end JSON_parse flush_example) = []" by blast+
  ultimately show ?thesis using h1 h2 f by blast
qed

section \<open>Frames lost before the end of the stream\<close>

text \<open>
  Both passes cut the buffer with \<open>rawBuffer.substring(nextMsgStart)\<close>, which discards
  everything before the next tag: the frame just processed, and also whatever stands
  before that frame. A frame of the other message type that stands there is discarded
  without ever being dispatched.
\<close>

text \<open>A tool notice whose closing brace is missing, and the tool notice it should have
  been.\<close>

definition malformed_tool_body :: string where
  "malformed_tool_body = ''{\"tool_name\":\"search\",\"additional_kwargs\":{}''"

text \<open>
  C2 fails on the code. The single chunk \<open>Tool :<malformed>Toly :<token>Toly :\<close> holds a
  complete tool frame (the next tag follows it) whose body fails to decode while the
  stream is open. The Tool pass defers it and leaves the buffer untouched, as the claim
  says; the Toly pass of the same drain then consumes the model frame behind it and cuts
  the buffer down to \<open>Toly :\<close>. The tool frame is gone from the buffer before the end of
  the stream, it was never dispatched leniently, and nothing about it is ever logged.
\<close>

theorem deferred_tool_frame_lost_mid_stream:
  "extractMessageContent (''Tool :'' @ malformed_tool_body @ ''Toly :'' @ example_toly_body @ ''Toly :'') 0
     = (malformed_tool_body, Some 50)
   \<and> fst (processToolMessage JSON_parse init malformed_tool_body False) = False
   \<and> rawBuffer (processMessages JSON_parse TOOL False
        (init\<lparr>rawBuffer := ''Tool :'' @ malformed_tool_body @ ''Toly :'' @ example_toly_body @ ''Toly :''\<rparr>))
       = ''Tool :'' @ malformed_tool_body @ ''Toly :'' @ example_toly_body @ ''Toly :''
   \<and> rawBuffer (on_data JSON_parse
        (''Tool :'' @ malformed_tool_body @ ''Toly :'' @ example_toly_body @ ''Toly :'') init)
       = ''Toly :''
   \<and> completed (on_data JSON_parse
        (''Tool :'' @ malformed_tool_body @ ''Toly :'' @ example_toly_body @ ''Toly :'') init) = False
   \<and> logged (run JSON_parse
        [''Tool :'' @ malformed_tool_body @ ''Toly :'' @ example_toly_body @ ''Toly :''])
       = [RawChunk (''Tool :'' @ malformed_tool_body @ ''Toly :'' @ example_toly_body @ ''Toly :''),
          TolyParseFailedAtEnd [], CompleteContent ''Hi'']"
  by code_simp

text \<open>
  C1 fails on the code. The upstream sequence is a model token, a tool notice and a second
  model token. Delivered as one chunk, the Tool pass consumes the tool notice first and
  discards the first model token standing before it: the events are the tool event, one
  delta and the transcript \<open>Hi\<close>. Split after the tool tag, the first model token is
  complete (the tool tag ends it) while the tool notice is not, so the token is emitted
  before the notice arrives: the events are a delta, the tool event, a delta and the
  transcript \<open>HiHi\<close>.
\<close>

theorem fragmentation_changes_events:
  "concat [''Toly :'' @ example_toly_body @ ''Tool :'',
           example_tool_body @ ''Toly :'' @ example_toly_body]
     = ''Toly :'' @ example_toly_body @ ''Tool :'' @ example_tool_body @ ''Toly :'' @ example_toly_body
   \<and> emitted (run JSON_parse
        [''Toly :'' @ example_toly_body @ ''Tool :'' @ example_tool_body @ ''Toly :'' @ example_toly_body])
       = [ToolEvent (JObj [(''tool_name'', JStr ''search''), (''additional_kwargs'', JObj [])]),
          DeltaEvent ''Hi'', ContentEvent ''Hi'']
   \<and> emitted (run JSON_parse
        [''Toly :'' @ example_toly_body @ ''Tool :'',
         example_tool_body @ ''Toly :'' @ example_toly_body])
       = [DeltaEvent ''Hi'',
          ToolEvent (JObj [(''tool_name'', JStr ''search''), (''additional_kwargs'', JObj [])]),
          DeltaEvent ''Hi'', ContentEvent ''HiHi'']"
  by code_simp

section \<open>Bodies that decode and are deferred all the same\<close>

text \<open>
  C7 fails on the code. The \<open>catch\<close> of \<open>processTolyMessage\<close> catches every exception of the
  \<open>try\<close> block, not only the \<open>SyntaxError\<close> of \<open>JSON.parse\<close>. The body \<open>null\<close> decodes, and
  reading \<open>parsedData.event\<close> of \<open>null\<close> throws a \<open>TypeError\<close>; an object that passes the
  filter and has no \<open>data\<close> member decodes, and \<open>parsedData.data.chunk\<close> throws. With the
  stream open both are answered \<open>false\<close>, the deferred outcome, although the decode
  succeeded. In the stream \<open>Toly :nullToly :<token>Toly :\<close> the frame \<open>null\<close> stays at the
  front of the buffer and the token behind it is not emitted while the stream is open.
\<close>

theorem decoded_body_deferred:
  "JSON_parse ''null'' = Some JNull
   \<and> processTolyMessage JSON_parse init ''null'' False = (False, init)
   \<and> JSON_parse ''{\"event\":\"on_chat_model_stream\",\"metadata\":{\"langgraph_node\":\"Toly\"}}''
       = Some (JObj [(''event'', JStr ''on_chat_model_stream''),
                     (''metadata'', JObj [(''langgraph_node'', JStr ''Toly'')])])
   \<and> processTolyMessage JSON_parse init
        ''{\"event\":\"on_chat_model_stream\",\"metadata\":{\"langgraph_node\":\"Toly\"}}'' False
       = (False, init)
   \<and> emitted (on_data JSON_parse (''Toly :nullToly :'' @ example_toly_body @ ''Toly :'') init) = []
   \<and> rawBuffer (on_data JSON_parse (''Toly :nullToly :'' @ example_toly_body @ ''Toly :'') init)
       = ''Toly :nullToly :'' @ example_toly_body @ ''Toly :''"
  by code_simp

section \<open>The frames of a window\<close>

text \<open>The specification's view of a buffered window, independent of the loop: the offsets
  of the tags of one type, and for the tag at an offset its frame, that is the body up to
  the next tag of either type and whether such a tag completes it.\<close>

definition tag_positions :: "message_type \<Rightarrow> string \<Rightarrow> nat list" where
  "tag_positions k buf = filter (\<lambda>p. prefix (MESSAGE_TYPES k) (drop p buf)) [0..<length buf]"

definition frame_at :: "string \<Rightarrow> nat \<Rightarrow> string \<times> bool" where
  "frame_at buf p =
     (case find (tag_at buf) [p + IDENTIFIER_LENGTH ..< length buf] of
        Some n \<Rightarrow> (take (n - (p + IDENTIFIER_LENGTH)) (drop (p + IDENTIFIER_LENGTH) buf), True)
      | None \<Rightarrow> (drop (p + IDENTIFIER_LENGTH) buf, False))"

definition frames :: "message_type \<Rightarrow> string \<Rightarrow> (string \<times> bool) list" where
  "frames k buf = map (frame_at buf) (tag_positions k buf)"

text \<open>What a tool frame body resolves to: the decoded notice and its dedup key, when the
  body decodes and the key can be derived.\<close>

definition tool_notice :: "(string \<Rightarrow> json option) \<Rightarrow> string \<Rightarrow> (json \<times> string) option" where
  "tool_notice parse body =
     (case parse (trim body) of
        None \<Rightarrow> None
      | Some toolData \<Rightarrow>
          (case toolKey toolData of
             Inl e \<Rightarrow> None
           | Inr key \<Rightarrow> Some (toolData, key)))"


lemma upt_split2:
  assumes "a \<le> m" and "m \<le> b"
  shows "[a..<b] = [a..<m] @ [m..<b]"
proof -
  from assms(2) have e: "m + (b - m) = b" by arith
  from assms(1) have "[a..<m + (b - m)] = [a..<m] @ [m..<m + (b - m)]"
    by (rule upt_add_eq_append)
  then show ?thesis by (simp only: e)
qed

lemma upt_split3:
  assumes "a \<le> m" and "m < b"
  shows "[a..<b] = [a..<m] @ m # [Suc m..<b]"
proof -
  from assms have "[a..<b] = [a..<m] @ [m..<b]" by (intro upt_split2) simp_all
  also from assms(2) have "[m..<b] = m # [Suc m..<b]" by (rule upt_conv_Cons)
  finally show ?thesis .
qed

lemma filter_upt_first:
  assumes "find P [a..<b] = Some m"
  shows "a \<le> m \<and> m < b \<and> P m \<and> filter P [a..<b] = m # filter P [Suc m..<b]"
proof -
  from assms obtain i where i: "i < length [a..<b]" and p: "P ([a..<b] ! i)"
    and m: "m = [a..<b] ! i" and least: "\<forall>j<i. \<not> P ([a..<b] ! j)"
    by (auto simp: find_Some_iff)
  from i m have mi: "m = a + i" and mb: "m < b" by simp_all
  from p m have pm: "P m" by simp
  have none: "filter P [a..<m] = []"
  proof -
    have "\<And>x. x \<in> set [a..<m] \<Longrightarrow> \<not> P x"
    proof -
      fix x assume "x \<in> set [a..<m]"
      then have x: "a \<le> x" "x < m" by simp_all
      then have "x - a < i" using mi by arith
      with least have "\<not> P ([a..<b] ! (x - a))" by blast
      moreover from x mb have "[a..<b] ! (x - a) = x" by simp
      ultimately show "\<not> P x" by simp
    qed
    then show ?thesis by (simp add: filter_empty_conv)
  qed
  have split: "[a..<b] = [a..<m] @ m # [Suc m..<b]"
    by (rule upt_split3) (use mi mb in simp_all)
  have "filter P [a..<b] = filter P ([a..<m] @ m # [Suc m..<b])"
    by (rule arg_cong [OF split])
  also have "\<dots> = m # filter P [Suc m..<b]"
    by (simp only: filter_append filter.simps none pm append_Nil if_True)
  finally have "filter P [a..<b] = m # filter P [Suc m..<b]" .
  with mi mb pm show ?thesis by simp
qed

lemma tag_positions_none:
  assumes "indexOf buf (MESSAGE_TYPES k) 0 = None"
  shows "tag_positions k buf = []"
proof -
  have n: "MESSAGE_TYPES k \<noteq> []" by (cases k) simp_all
  from assms show ?thesis
    by (auto simp: tag_positions_def indexOf_find [OF n] find_None_iff filter_empty_conv)
qed

lemma tag_positions_first:
  assumes "indexOf buf (MESSAGE_TYPES k) 0 = Some m"
  shows "tag_positions k buf
           = m # filter (\<lambda>p. prefix (MESSAGE_TYPES k) (drop p buf)) [Suc m..<length buf]"
proof -
  have n: "MESSAGE_TYPES k \<noteq> []" by (cases k) simp_all
  from assms have "find (\<lambda>p. prefix (MESSAGE_TYPES k) (drop p buf)) [0..<length buf] = Some m"
    by (simp add: indexOf_find [OF n])
  from filter_upt_first [OF this] show ?thesis by (simp add: tag_positions_def)
qed

lemma tag_positions_last:
  assumes m: "indexOf buf (MESSAGE_TYPES k) 0 = Some m"
    and last: "findNextMessageStart buf m = None"
  shows "tag_positions k buf = [m]"
proof -
  from indexOf_tag_at [OF m] have t: "prefix (MESSAGE_TYPES k) (drop m buf)" .
  have "filter (\<lambda>p. prefix (MESSAGE_TYPES k) (drop p buf)) [Suc m..<length buf] = []"
  proof -
    have "\<And>p. p \<in> set [Suc m..<length buf] \<Longrightarrow> \<not> prefix (MESSAGE_TYPES k) (drop p buf)"
    proof
      fix p assume r: "p \<in> set [Suc m..<length buf]"
        and "prefix (MESSAGE_TYPES k) (drop p buf)"
      then have "tag_at buf p" by (auto simp: tag_at_kind)
      from no_tag_behind [OF t last this] r show False by simp
    qed
    then show ?thesis by (simp add: filter_empty_conv)
  qed
  with tag_positions_first [OF m] show ?thesis by simp
qed

lemma tag_positions_next:
  assumes m: "indexOf buf (MESSAGE_TYPES k) 0 = Some m"
    and nx: "findNextMessageStart buf m = Some n"
  shows "tag_positions k buf = m # map (\<lambda>p. p + n) (tag_positions k (drop n buf))"
proof -
  let ?P = "\<lambda>p. prefix (MESSAGE_TYPES k) (drop p buf)"
  from indexOf_tag_at [OF m] have t: "?P m" .
  from findNextMessageStart_Some [OF nx] have mn: "m + 6 \<le> n" and nl: "n + 6 \<le> length buf"
    by simp_all
  from nx have f: "find (tag_at buf) [m + IDENTIFIER_LENGTH ..< length buf] = Some n"
    by (simp add: findNextMessageStart_find)
  then obtain i where i: "i < length [m + IDENTIFIER_LENGTH ..< length buf]"
    and ni: "n = [m + IDENTIFIER_LENGTH ..< length buf] ! i"
    and least: "\<forall>j<i. \<not> tag_at buf ([m + IDENTIFIER_LENGTH ..< length buf] ! j)"
    by (auto simp: find_Some_iff)
  from i ni have n6: "n = m + 6 + i" by (simp add: IDENTIFIER_LENGTH_def)
  have none: "filter ?P [Suc m..<n] = []"
  proof -
    have "\<And>p. p \<in> set [Suc m..<n] \<Longrightarrow> \<not> ?P p"
    proof
      fix p assume r: "p \<in> set [Suc m..<n]" and pp: "?P p"
      then have mp: "m < p" and pn: "p < n" by simp_all
      from tags_apart [OF t pp mp] have far: "m + 6 \<le> p" .
      with pn n6 have j: "p - (m + 6) < i" by arith
      from far pn nl have "[m + IDENTIFIER_LENGTH ..< length buf] ! (p - (m + 6)) = p"
        by (simp add: IDENTIFIER_LENGTH_def)
      with least j have "\<not> tag_at buf p" by auto
      with pp show False by (auto simp: tag_at_kind)
    qed
    then show ?thesis by (simp add: filter_empty_conv)
  qed
  have split: "[Suc m..<length buf] = [Suc m..<n] @ [n..<length buf]"
    by (rule upt_split2) (use mn nl in simp_all)
  have shift: "[n..<length buf] = map (\<lambda>p. p + n) [0..<length buf - n]"
    using map_add_upt_shift [of n 0 "length buf - n"] nl by simp
  have "filter ?P [n..<length buf]
          = map (\<lambda>p. p + n) (filter (\<lambda>p. prefix (MESSAGE_TYPES k) (drop p (drop n buf)))
                                 [0..<length buf - n])"
    by (simp add: shift filter_map comp_def)
  then have "filter ?P [n..<length buf] = map (\<lambda>p. p + n) (tag_positions k (drop n buf))"
    by (simp add: tag_positions_def)
  with tag_positions_first [OF m] none split show ?thesis by simp
qed

lemma frame_at_drop:
  assumes "n \<le> length buf"
  shows "frame_at (drop n buf) p = frame_at buf (p + n)"
proof -
  have t: "tag_at (drop n buf) = (\<lambda>i. tag_at buf (i + n))"
    by (rule ext) (simp add: tag_at_def)
  have l: "[p + n + IDENTIFIER_LENGTH ..< length buf]
             = map (\<lambda>i. i + n) [p + IDENTIFIER_LENGTH ..< length buf - n]"
    using map_add_upt_shift [of n "p + IDENTIFIER_LENGTH" "length buf - n"] assms
    by (simp add: add.commute add.left_commute)
  have f: "find (tag_at buf) [p + n + IDENTIFIER_LENGTH ..< length buf]
             = map_option (\<lambda>i. i + n)
                 (find (tag_at (drop n buf)) [p + IDENTIFIER_LENGTH ..< length buf - n])"
    by (simp add: l find_map_shift t)
  show ?thesis
  proof (cases "find (tag_at (drop n buf)) [p + IDENTIFIER_LENGTH ..< length buf - n]")
    case None
    with f show ?thesis
      by (simp add: frame_at_def add.commute add.left_commute)
  next
    case (Some x)
    then have "p + IDENTIFIER_LENGTH \<le> x" by (auto simp: find_Some_iff)
    then have "x + n - (p + n + IDENTIFIER_LENGTH) = x - (p + IDENTIFIER_LENGTH)" by arith
    with f Some show ?thesis
      by (simp add: frame_at_def add.commute add.left_commute)
  qed
qed

lemma frame_at_extract:
  "frame_at buf p = (fst (extractMessageContent buf p), findNextMessageStart buf p \<noteq> None)"
proof (cases "findNextMessageStart buf p")
  case None
  then show ?thesis
    by (simp add: frame_at_def findNextMessageStart_find [symmetric] extractMessageContent_def
          Let_def substring_from_def)
next
  case (Some n)
  from findNextMessageStart_Some [OF Some] have "p + 6 \<le> n" and "n + 6 \<le> length buf"
    by simp_all
  then have "substring buf (p + IDENTIFIER_LENGTH) n
               = take (n - (p + IDENTIFIER_LENGTH)) (drop (p + IDENTIFIER_LENGTH) buf)"
    by (simp add: substring_def Let_def IDENTIFIER_LENGTH_def min_def max_def)
  with Some show ?thesis
    by (simp add: frame_at_def findNextMessageStart_find [symmetric] extractMessageContent_def
          Let_def)
qed

lemma frames_none:
  "indexOf buf (MESSAGE_TYPES k) 0 = None \<Longrightarrow> frames k buf = []"
  by (simp add: frames_def tag_positions_none)

lemma frames_last:
  assumes "indexOf buf (MESSAGE_TYPES k) 0 = Some m" and "findNextMessageStart buf m = None"
  shows "frames k buf = [(fst (extractMessageContent buf m), False)]"
  using assms by (simp add: frames_def tag_positions_last frame_at_extract)

lemma frames_next:
  assumes m: "indexOf buf (MESSAGE_TYPES k) 0 = Some m"
    and nx: "findNextMessageStart buf m = Some n"
  shows "frames k buf = (fst (extractMessageContent buf m), True) # frames k (drop n buf)"
proof -
  from findNextMessageStart_Some [OF nx] have nl: "n \<le> length buf" by simp
  have "map (frame_at buf) (map (\<lambda>p. p + n) (tag_positions k (drop n buf)))
          = map (frame_at (drop n buf)) (tag_positions k (drop n buf))"
    by (simp add: frame_at_drop [OF nl] comp_def)
  with nx show ?thesis
    by (simp add: frames_def tag_positions_next [OF m nx] frame_at_extract)
qed






text \<open>The frames of a window, front first: the equation by which they are computed.\<close>

lemma frames_unfold [code]:
  "frames k buf =
     (case indexOf buf (MESSAGE_TYPES k) 0 of
        None \<Rightarrow> []
      | Some m \<Rightarrow>
          (case findNextMessageStart buf m of
             None \<Rightarrow> [(fst (extractMessageContent buf m), False)]
           | Some n \<Rightarrow> (fst (extractMessageContent buf m), True) # frames k (drop n buf)))"
  by (simp add: frames_none frames_last frames_next split: option.splits)




section \<open>Tool notices that are never emitted\<close>

text \<open>A window that holds the same tool notice twice, behind a tool frame that fails to
  decode and before a model token.\<close>

definition repeated_notice_window :: string where
  "repeated_notice_window = ''Tool :'' @ malformed_tool_body @ ''Tool :'' @ example_tool_body
                     @ ''Tool :'' @ example_tool_body @ ''Toly :'' @ example_toly_body @ ''Toly :''"

text \<open>
  C3 fails on the code. The single chunk
  \<open>Tool :<malformed>Tool :<notice>Tool :<notice>Toly :<token>Toly :\<close> holds the same tool
  notice in two complete frames, both of which decode, behind a tool frame whose body fails
  to decode. With the stream open the Tool pass stops at the malformed frame, and the Toly
  pass of the same drain consumes the model token and cuts the buffer down to \<open>Toly :\<close>,
  which discards all three tool frames. The session completes with the delta and the
  transcript and with no tool event at all, where the claim has exactly one.

  Nor is the dedup key unique to a notice: it is the name, a hyphen and the encoded
  keyword arguments, so the name \<open>a-\<close> with the arguments \<open>5\<close> and the name \<open>a\<close> with the
  arguments \<open>-5\<close> both derive the key \<open>a--5\<close>. In the stream that holds the first notice
  and then the second one twice, the first is emitted and the second never.
\<close>

theorem repeated_notice_never_emitted:
  "frames TOOL repeated_notice_window
     = [(malformed_tool_body, True), (example_tool_body, True), (example_tool_body, True)]
   \<and> tool_notice JSON_parse example_tool_body
       = Some (JObj [(''tool_name'', JStr ''search''), (''additional_kwargs'', JObj [])],
               ''search-{}'')
   \<and> emitted (run JSON_parse [repeated_notice_window]) = [DeltaEvent ''Hi'', ContentEvent ''Hi'']
   \<and> tool_notice JSON_parse ''{\"tool_name\":\"a-\",\"additional_kwargs\":5}''
       = Some (JObj [(''tool_name'', JStr ''a-''), (''additional_kwargs'', JNum ''5'')], ''a--5'')
   \<and> tool_notice JSON_parse ''{\"tool_name\":\"a\",\"additional_kwargs\":-5}''
       = Some (JObj [(''tool_name'', JStr ''a''), (''additional_kwargs'', JNum ''-5'')], ''a--5'')
   \<and> emitted (run JSON_parse
        [''Tool :{\"tool_name\":\"a-\",\"additional_kwargs\":5}''
         @ ''Tool :{\"tool_name\":\"a\",\"additional_kwargs\":-5}''
         @ ''Tool :{\"tool_name\":\"a\",\"additional_kwargs\":-5}''])
       = [ToolEvent (JObj [(''tool_name'', JStr ''a-''), (''additional_kwargs'', JNum ''5'')]),
          ContentEvent []]"
  by code_simp

section \<open>Examples\<close>

text \<open>The example of the specification: a tool notice split across two chunks, then a
  model token.\<close>

lemma spec_example:
  "emitted (run JSON_parse
     [''Tool :{\"tool_name\":\"sear'',
      ''ch\",\"additional_kwargs\":{}}Toly :'' @ example_toly_body])
     = [ToolEvent (JObj [(''tool_name'', JStr ''search''), (''additional_kwargs'', JObj [])]),
        DeltaEvent ''Hi'', ContentEvent ''Hi'']"
  by code_simp

text \<open>The same tool notice twice in one stream.\<close>

lemma dedup_example:
  "emitted (run JSON_parse
     [''Tool :'' @ example_tool_body @ ''Tool :'' @ example_tool_body @ ''Toly :'' @ example_toly_body])
     = [ToolEvent (JObj [(''tool_name'', JStr ''search''), (''additional_kwargs'', JObj [])]),
        DeltaEvent ''Hi'', ContentEvent ''Hi'']"
  by code_simp

text \<open>A tool notice whose name is an object with a member \<open>toString\<close>: the body decodes,
  the template literal of the key throws, and the \<open>catch\<close> answers as for a failed decode.\<close>

lemma key_conversion_throws:
  "JSON_parse ''{\"tool_name\":{\"toString\":1},\"additional_kwargs\":{}}''
     = Some (JObj [(''tool_name'', JObj [(''toString'', JNum ''1'')]),
                   (''additional_kwargs'', JObj [])])
   \<and> toolKey (JObj [(''tool_name'', JObj [(''toString'', JNum ''1'')]),
                     (''additional_kwargs'', JObj [])]) = Inl TypeError
   \<and> toolKey (JObj [(''tool_name'', JObj [(''name'', JNum ''1'')]),
                     (''additional_kwargs'', JObj [])]) = Inr ''[object Object]-{}''
   \<and> processToolMessage JSON_parse init
        ''{\"tool_name\":{\"toString\":1},\"additional_kwargs\":{}}'' False = (False, init)"
  by code_simp

text \<open>The end of the stream on \<open>flush_example\<close>.\<close>

lemma flush_example_run:
  "emitted (on_end JSON_parse flush_example)
     = [DeltaEvent ''Hi'',
        ToolEvent (JObj [(''tool_name'', JStr ''search''), (''additional_kwargs'', JObj [])]),
        ContentEvent ''Hi'']
   \<and> logged (on_end JSON_parse flush_example)
     = [TolyParseFailedAtEnd ''{\"event\":\"on_ch'', CompleteContent ''Hi'']"
  by code_simp

end
